theory Spec2Isabelle
  imports Main "HOL-Library.AList"
begin

section \<open>ReSub StoreBase: subscriptions, pending callbacks and the resolver\<close>

text \<open>
  A shallow embedding of \<^verbatim>\<open>src/StoreBase.ts\<close>. Callbacks and auto-subscription records
  are JavaScript objects compared by identity: a callback is modelled by a natural number (its
  reference), a store instance by a natural number as well. The static fields of the class and
  the store instances live in one record, the \<open>world\<close>, which every operation takes and returns.

  A failed \<^verbatim>\<open>assert\<close> or a \<^verbatim>\<open>TypeError\<close> is the result \<open>Throw e\<close>: the exception ends the
  run, and the state it leaves behind is not looked at. The numbers of the source (times,
  delays, counters, numeric keys) are integers; \<^verbatim>\<open>NaN\<close>, fractions and magnitudes beyond
  \<open>2^53\<close> are left out. What a callback does when it is called is a parameter, the
  \<open>behaviour\<close>: a sequence of calls of the public interface, chosen from the argument and
  the state the callback finds.
\<close>

subsection \<open>Data model\<close>

type_synonym callback = nat

text \<open>\<^verbatim>\<open>CallbackMetadata\<close>: \<open>keys = None\<close> is the source's \<^verbatim>\<open>null\<close> (all keys),
  \<open>throttledUntil = None\<close> is \<^verbatim>\<open>undefined\<close>.\<close>

record CallbackMetadata =
  keys :: "string list option"
  throttledUntil :: "int option"
  bypassBlock :: bool

type_synonym CallbackMap = "(callback \<times> CallbackMetadata) list"

text \<open>\<^verbatim>\<open>AutoSubscription\<close>: \<open>as_ref\<close> is the identity of the object; the store never
  reads \<open>as_store\<close> and \<open>as_used\<close>.\<close>

record AutoSubscription =
  as_ref :: nat
  as_store :: nat
  as_callback :: callback
  as_key :: string
  as_used :: bool

record ThrottleData =
  timerId :: nat
  callbackTime :: int

datatype hook = StartedTrackingKey string | StoppedTrackingKey string

text \<open>One store instance. \<open>subscriptions\<close> and \<open>autoSubscriptions\<close> are plain JavaScript
  objects used as dictionaries: association lists in insertion order. \<open>hooks\<close> is the trace of
  the calls of the two virtual functions \<^verbatim>\<open>_startedTrackingKey\<close> and
  \<^verbatim>\<open>_stoppedTrackingKey\<close>.\<close>

record StoreBase =
  subscriptions :: "(string \<times> callback list) list"
  autoSubscriptions :: "(string \<times> AutoSubscription list) list"
  subTokenNum :: nat
  subsByNum :: "nat \<rightharpoonup> (string \<times> callback)"
  throttleData :: "ThrottleData option"
  throttleMs :: "int option"
  bypassTriggerBlocks :: bool
  hooks :: "hook list"

datatype jskey = Str string | Num int

text \<open>The argument of \<^verbatim>\<open>trigger(keyOrKeys?: string|number|(string|number)[])\<close>.\<close>

datatype keyarg = NoArg | One jskey | Many "jskey list"

text \<open>The class a static method is called on: \<open>[]\<close> is \<^verbatim>\<open>StoreBase\<close> itself, \<open>c # super\<close>
  is the subclass \<open>c\<close> of the class \<open>super\<close> (\<^verbatim>\<open>StoreBase\<close> is abstract, every store
  belongs to a subclass).\<close>

type_synonym klass = "nat list"

text \<open>The calls a callback can make while it runs.\<close>

datatype op =
    OpTrigger nat keyarg
  | OpSubscribe nat callback "jskey option"
  | OpUnsubscribe nat nat
  | OpTrackAutoSubscription nat AutoSubscription
  | OpRemoveAutoSubscription nat AutoSubscription
  | OpPushTriggerBlock klass
  | OpPopTriggerBlock klass
  | OpSetThrottleStatus klass bool

datatype call = Invoked callback "string list option" | Issued op

datatype mark = BeginInvokeStoreCallbacks | EndInvokeStoreCallbacks

text \<open>The static fields of \<^verbatim>\<open>StoreBase\<close>, the static properties that the subclasses
  hold as their own (a static method that assigns to \<^verbatim>\<open>this._triggerBlockCount\<close> or
  \<^verbatim>\<open>this._bypassThrottle\<close> creates one on the class it is called on), the store instances,
  and the environment:
  \<open>now\<close> is what \<^verbatim>\<open>Date.now()\<close> returns (milliseconds since the epoch),
  \<open>defaultThrottleMs\<close> is \<^verbatim>\<open>Options.defaultThrottleMs\<close>, \<open>timeouts\<close> lists the calls of
  \<^verbatim>\<open>Options.setTimeout\<close> (the store whose handler was scheduled, and the delay passed),
  \<open>calls\<close> is the trace of callback invocations and of the calls callbacks made, \<open>marks\<close>
  the trace of the two instrumentation calls of the resolver.\<close>

record world =
  triggerPending :: bool
  isTriggering :: bool
  triggerBlockCount :: int
  bypassThrottle :: bool
  ownTriggerBlockCount :: "klass \<rightharpoonup> int"
  ownBypassThrottle :: "klass \<rightharpoonup> bool"
  pendingCallbacks :: CallbackMap
  stores :: "nat \<Rightarrow> StoreBase"
  now :: nat
  defaultThrottleMs :: "int option"
  timeouts :: "(nat \<times> int option) list"
  calls :: "call list"
  marks :: "mark list"

datatype error =
    InvalidKey
  | UnknownToken
  | NoSubscriptionsUnderKey
  | SubscriptionNotFound
  | ImbalancedBlockStack
  | TypeError

text \<open>The outcome of a call: it returns, it throws, or the model ran out of fuel (the
  resolver calls itself again as long as callbacks keep requesting it).\<close>

datatype 'a result = Ok 'a | Throw error | OutOfFuel

fun bind :: "'a result \<Rightarrow> ('a \<Rightarrow> 'b result) \<Rightarrow> 'b result" where
  "bind (Ok x) f = f x"
| "bind (Throw e) f = Throw e"
| "bind OutOfFuel f = OutOfFuel"

definition Key_All :: string where
  "Key_All = ''%!$all''"

subsection \<open>JavaScript values\<close>

text \<open>Truthiness of a \<^verbatim>\<open>number | undefined\<close>: \<^verbatim>\<open>undefined\<close> and \<open>0\<close> are falsy.\<close>

fun truthy :: "int option \<Rightarrow> bool" where
  "truthy None = False"
| "truthy (Some n) = (n \<noteq> 0)"

text \<open>\<^verbatim>\<open>Number.prototype.toString\<close> on an integer (decimal digits, a leading minus sign).\<close>

definition digit :: "nat \<Rightarrow> char" where
  "digit d = char_of (48 + d)"

fun show_nat :: "nat \<Rightarrow> string" where
  "show_nat n = (if n < 10 then [digit n] else show_nat (n div 10) @ [digit (n mod 10)])"

definition toString :: "int \<Rightarrow> string" where
  "toString n = (if n < 0 then CHR ''-'' # show_nat (nat (- n)) else show_nat (nat n))"

text \<open>lodash \<^verbatim>\<open>uniq\<close>: the first occurrence of every element, in order.\<close>

fun uniq_from :: "'a list \<Rightarrow> 'a list \<Rightarrow> 'a list" where
  "uniq_from seen [] = []"
| "uniq_from seen (x # xs) =
     (if x \<in> set seen then uniq_from seen xs else x # uniq_from (seen @ [x]) xs)"

definition uniq :: "'a list \<Rightarrow> 'a list" where
  "uniq xs = uniq_from [] xs"

text \<open>A plain object inherits the properties of \<^verbatim>\<open>Object.prototype\<close>: reading one of
  these names from a dictionary gives the inherited member, never \<^verbatim>\<open>undefined\<close>.\<close>

definition inherited_key :: "string \<Rightarrow> bool" where
  "inherited_key k = (k \<in> set [''constructor'', ''__proto__'', ''hasOwnProperty'',
     ''isPrototypeOf'', ''propertyIsEnumerable'', ''toString'', ''toLocaleString'', ''valueOf'',
     ''__defineGetter__'', ''__defineSetter__'', ''__lookupGetter__'', ''__lookupSetter__''])"

text \<open>\<^verbatim>\<open>forEach(dict[key], f)\<close> visits the elements of the array stored under the key;
  nothing when the key is absent, and nothing for an inherited member (it has no own
  enumerable property).\<close>

definition entries_at :: "(string \<times> 'a list) list \<Rightarrow> string \<Rightarrow> 'a list" where
  "entries_at d k =
     (if inherited_key k then [] else case map_of d k of None \<Rightarrow> [] | Some xs \<Rightarrow> xs)"

text \<open>The order of \<^verbatim>\<open>values(dict)\<close>: the keys that are array indices (canonical
  decimal numerals below \<open>2^32 - 1\<close>) in ascending order, then the other keys in insertion
  order.\<close>

fun parse_nat :: "string \<Rightarrow> nat \<Rightarrow> nat option" where
  "parse_nat [] acc = Some acc"
| "parse_nat (c # cs) acc =
     (let d = (of_char c :: nat)
      in if 48 \<le> d \<and> d \<le> 57 then parse_nat cs (10 * acc + (d - 48)) else None)"

definition array_index :: "string \<Rightarrow> nat option" where
  "array_index k =
     (if k = [] then None
      else case parse_nat k 0 of
        None \<Rightarrow> None
      | Some n \<Rightarrow> if show_nat n = k \<and> n < 4294967295 then Some n else None)"

definition index_of_key :: "string \<Rightarrow> nat" where
  "index_of_key k = (case array_index k of None \<Rightarrow> 0 | Some n \<Rightarrow> n)"

definition values_of :: "(string \<times> 'a) list \<Rightarrow> 'a list" where
  "values_of d =
     map snd (sort_key (\<lambda>p. index_of_key (fst p)) (filter (\<lambda>p. array_index (fst p) \<noteq> None) d)
              @ filter (\<lambda>p. array_index (fst p) = None) d)"

subsection \<open>The pending-callback table\<close>

text \<open>\<^verbatim>\<open>_updateExistingMeta\<close>, on an entry that exists (the caller returns early when
  there is none).\<close>

definition updateExistingMeta ::
  "CallbackMetadata \<Rightarrow> int option \<Rightarrow> bool \<Rightarrow> CallbackMetadata" where
  "updateExistingMeta meta until bypass =
     (let m1 = (if truthy until \<and> truthy (throttledUntil meta)
                then meta\<lparr>throttledUntil := Some (min (the (throttledUntil meta)) (the until))\<rparr>
                else meta);
          m2 = (if \<not> truthy until then m1\<lparr>throttledUntil := None\<rparr> else m1)
      in if bypass then m2\<lparr>bypassBlock := True\<rparr> else m2)"

text \<open>\<^verbatim>\<open>_setupAllKeySubscription\<close>. \<^verbatim>\<open>Map.set\<close> keeps the position of a key that
  is present and appends a new one.\<close>

definition setupAllKeySubscription ::
  "callback \<Rightarrow> int option \<Rightarrow> bool \<Rightarrow> CallbackMap \<Rightarrow> CallbackMap" where
  "setupAllKeySubscription cb until bypass pending =
     (let existingMeta = map_of pending cb;
          newMeta = \<lparr>keys = None, throttledUntil = until, bypassBlock = bypass\<rparr>;
          n1 = (case existingMeta of
                  Some e \<Rightarrow>
                    if truthy until \<and> truthy (throttledUntil e)
                    then newMeta\<lparr>throttledUntil := Some (min (the until) (the (throttledUntil e)))\<rparr>
                    else newMeta
                | None \<Rightarrow> newMeta);
          n2 = (case existingMeta of
                  Some e \<Rightarrow> if bypassBlock e then n1\<lparr>bypassBlock := True\<rparr> else n1
                | None \<Rightarrow> n1)
      in AList.update cb n2 pending)"

text \<open>\<^verbatim>\<open>_setupSpecificKeySubscription\<close>.\<close>

definition setupSpecificKeySubscription ::
  "string list \<Rightarrow> callback \<Rightarrow> int option \<Rightarrow> bool \<Rightarrow> CallbackMap \<Rightarrow> CallbackMap" where
  "setupSpecificKeySubscription ks cb until bypass pending =
     (case map_of pending cb of
        None \<Rightarrow> AList.update cb \<lparr>keys = Some ks, throttledUntil = until, bypassBlock = bypass\<rparr> pending
      | Some existingMeta \<Rightarrow>
          (let m = updateExistingMeta existingMeta until bypass
           in case keys m of
                None \<Rightarrow> AList.update cb m pending
              | Some old \<Rightarrow> AList.update cb (m\<lparr>keys := Some (old @ ks)\<rparr>) pending))"

subsection \<open>The subscription registry\<close>

definition update_store :: "nat \<Rightarrow> (StoreBase \<Rightarrow> StoreBase) \<Rightarrow> world \<Rightarrow> world" where
  "update_store sid f w = w\<lparr>stores := (stores w)(sid := f (stores w sid))\<rparr>"

definition key_string :: "jskey \<Rightarrow> string" where
  "key_string k = (case k of Num n \<Rightarrow> toString n | Str s \<Rightarrow> s)"

text \<open>\<^verbatim>\<open>subscribe(callback, rawKey = Key_All)\<close>: \<open>None\<close> is the omitted key. The assertion
  fails on the empty string; under a key that \<^verbatim>\<open>Object.prototype\<close> defines,
  \<^verbatim>\<open>callbacks\<close> is the inherited member and \<^verbatim>\<open>callbacks.push\<close> is a TypeError.\<close>

definition subscribe :: "nat \<Rightarrow> callback \<Rightarrow> jskey option \<Rightarrow> world \<Rightarrow> (nat \<times> world) result" where
  "subscribe sid cb rawKey w =
     (let key = (case rawKey of None \<Rightarrow> Key_All | Some k \<Rightarrow> key_string k);
          this = stores w sid
      in if key = [] then Throw InvalidKey
         else if inherited_key key then Throw TypeError
         else
           (let s1 = (case map_of (subscriptions this) key of
                        None \<Rightarrow>
                          this\<lparr>subscriptions := AList.update key [cb] (subscriptions this),
                               hooks := hooks this @
                                 (if key \<noteq> Key_All \<and> map_of (autoSubscriptions this) key = None
                                  then [StartedTrackingKey key] else [])\<rparr>
                      | Some callbacks \<Rightarrow>
                          this\<lparr>subscriptions :=
                                 AList.update key (callbacks @ [cb]) (subscriptions this)\<rparr>);
                token = subTokenNum s1;
                s2 = s1\<lparr>subTokenNum := token + 1,
                        subsByNum := (subsByNum s1)(token \<mapsto> (key, cb))\<rparr>
            in Ok (token, update_store sid (\<lambda>_. s2) w)))"

text \<open>\<^verbatim>\<open>unsubscribe(subToken)\<close>. \<^verbatim>\<open>indexOf\<close> and \<^verbatim>\<open>splice(index, 1)\<close> remove the
  first occurrence of the callback; \<^verbatim>\<open>indexOf\<close> finds nothing in an inherited member.\<close>

definition unsubscribe :: "nat \<Rightarrow> nat \<Rightarrow> world \<Rightarrow> world result" where
  "unsubscribe sid subToken w =
     (let this = stores w sid
      in case subsByNum this subToken of
           None \<Rightarrow> Throw UnknownToken
         | Some (key, cb) \<Rightarrow>
             (let s1 = this\<lparr>subsByNum := (subsByNum this)(subToken := None)\<rparr>;
                  w1 = w\<lparr>pendingCallbacks := AList.delete cb (pendingCallbacks w)\<rparr>
              in if inherited_key key then Throw SubscriptionNotFound
                 else case map_of (subscriptions s1) key of
                   None \<Rightarrow> Throw NoSubscriptionsUnderKey
                 | Some callbacks \<Rightarrow>
                     if cb \<in> set callbacks then
                       (let rest = remove1 cb callbacks;
                            s2 = (if rest = [] then
                                    s1\<lparr>subscriptions := AList.delete key (subscriptions s1),
                                       hooks := hooks s1 @
                                         (if key \<noteq> Key_All \<and>
                                             map_of (autoSubscriptions s1) key = None
                                          then [StoppedTrackingKey key] else [])\<rparr>
                                  else
                                    s1\<lparr>subscriptions :=
                                         AList.update key rest (subscriptions s1)\<rparr>)
                        in Ok (update_store sid (\<lambda>_. s2) w1))
                     else Throw SubscriptionNotFound))"

text \<open>\<^verbatim>\<open>trackAutoSubscription(subscription)\<close>.\<close>

definition trackAutoSubscription :: "nat \<Rightarrow> AutoSubscription \<Rightarrow> world \<Rightarrow> world result" where
  "trackAutoSubscription sid subscription w =
     (let key = as_key subscription;
          this = stores w sid
      in if inherited_key key then Throw TypeError
         else
           (let s1 = (case map_of (autoSubscriptions this) key of
                        None \<Rightarrow>
                          this\<lparr>autoSubscriptions :=
                                 AList.update key [subscription] (autoSubscriptions this),
                               hooks := hooks this @
                                 (if key \<noteq> Key_All \<and> map_of (subscriptions this) key = None
                                  then [StartedTrackingKey key] else [])\<rparr>
                      | Some callbacks \<Rightarrow>
                          this\<lparr>autoSubscriptions :=
                                 AList.update key (callbacks @ [subscription])
                                   (autoSubscriptions this)\<rparr>)
            in Ok (update_store sid (\<lambda>_. s1) w)))"

text \<open>\<^verbatim>\<open>removeAutoSubscription(subscription)\<close>. lodash \<^verbatim>\<open>pull\<close> removes every
  occurrence of the object (compared by identity); the assertion wants the array one
  shorter. Under an inherited key
  \<^verbatim>\<open>subs\<close> is the inherited member, which \<^verbatim>\<open>pull\<close> leaves as it is, and the
  assertion on the length fails.\<close>

definition removeAutoSubscription :: "nat \<Rightarrow> AutoSubscription \<Rightarrow> world \<Rightarrow> world result" where
  "removeAutoSubscription sid subscription w =
     (let key = as_key subscription;
          this = stores w sid
      in if inherited_key key then Throw SubscriptionNotFound
         else case map_of (autoSubscriptions this) key of
           None \<Rightarrow> Throw NoSubscriptionsUnderKey
         | Some subs \<Rightarrow>
             (let rest = filter (\<lambda>x. as_ref x \<noteq> as_ref subscription) subs
              in if int (length rest) \<noteq> int (length subs) - 1 then Throw SubscriptionNotFound
                 else
                   (let w1 = w\<lparr>pendingCallbacks :=
                                 AList.delete (as_callback subscription) (pendingCallbacks w)\<rparr>;
                        s1 = (if rest = [] then
                                this\<lparr>autoSubscriptions := AList.delete key (autoSubscriptions this),
                                     hooks := hooks this @
                                       (if key \<noteq> Key_All \<and> map_of (subscriptions this) key = None
                                        then [StoppedTrackingKey key] else [])\<rparr>
                              else
                                this\<lparr>autoSubscriptions :=
                                       AList.update key rest (autoSubscriptions this)\<rparr>)
                    in Ok (update_store sid (\<lambda>_. s1) w1))))"

subsection \<open>Trigger\<close>

text \<open>The test \<^verbatim>\<open>!keyOrKeys && typeof keyOrKeys !== 'number'\<close>: \<^verbatim>\<open>undefined\<close>, the
  empty string and the number \<open>0\<close> are falsy; an array never is.\<close>

fun falsy_arg :: "keyarg \<Rightarrow> bool" where
  "falsy_arg NoArg = True"
| "falsy_arg (One (Str s)) = (s = [])"
| "falsy_arg (One (Num n)) = (n = 0)"
| "falsy_arg (Many ks) = False"

fun number_arg :: "keyarg \<Rightarrow> bool" where
  "number_arg (One (Num n)) = True"
| "number_arg a = False"

definition all_keys_branch :: "keyarg \<Rightarrow> bool" where
  "all_keys_branch keyOrKeys = (falsy_arg keyOrKeys \<and> \<not> number_arg keyOrKeys)"

text \<open>The list \<^verbatim>\<open>keys\<close> of the second branch (which \<open>NoArg\<close> never reaches).\<close>

fun trigger_keys :: "keyarg \<Rightarrow> string list" where
  "trigger_keys (Many ks) = map key_string ks"
| "trigger_keys (One k) = [key_string k]"
| "trigger_keys NoArg = []"

definition register_all :: "StoreBase \<Rightarrow> int option \<Rightarrow> bool \<Rightarrow> CallbackMap \<Rightarrow> CallbackMap" where
  "register_all this until bypass pending =
     (let allSubs = concat (values_of (subscriptions this));
          p1 = fold (\<lambda>sub. setupAllKeySubscription sub until bypass) allSubs pending
      in fold (\<lambda>sub. setupAllKeySubscription (as_callback sub) until bypass)
           (concat (values_of (autoSubscriptions this))) p1)"

definition register_key :: "StoreBase \<Rightarrow> int option \<Rightarrow> bool \<Rightarrow> string \<Rightarrow> CallbackMap \<Rightarrow> CallbackMap" where
  "register_key this until bypass key pending =
     (let p1 = fold (\<lambda>cb. setupSpecificKeySubscription [key] cb until bypass)
                 (entries_at (subscriptions this) key) pending
      in fold (\<lambda>sub. setupSpecificKeySubscription [key] (as_callback sub) until bypass)
           (entries_at (autoSubscriptions this) key) p1)"

definition register_keys :: "StoreBase \<Rightarrow> int option \<Rightarrow> bool \<Rightarrow> string list \<Rightarrow> CallbackMap \<Rightarrow> CallbackMap" where
  "register_keys this until bypass ks pending =
     (let p1 = fold (register_key this until bypass) ks pending;
          p2 = fold (\<lambda>cb. setupSpecificKeySubscription ks cb until bypass)
                 (entries_at (subscriptions this) Key_All) p1
      in fold (\<lambda>sub. setupSpecificKeySubscription ks (as_callback sub) until bypass)
           (entries_at (autoSubscriptions this) Key_All) p2)"

text \<open>Modelled from the spec: \<^verbatim>\<open>Options.setTimeout\<close> (\<^verbatim>\<open>Options.ts\<close> is not among the
  sources), the scheduling primitive \<^verbatim>\<open>scheduleOnce(delayMs, callback) -> handle\<close> of the
  configuration provider. The call is recorded with the store whose handler is scheduled
  and the delay passed; the handle returned is the number of timers started before.\<close>

definition Options_setTimeout :: "nat \<Rightarrow> int option \<Rightarrow> world \<Rightarrow> nat \<times> world" where
  "Options_setTimeout sid delay w = (length (timeouts w), w\<lparr>timeouts := timeouts w @ [(sid, delay)]\<rparr>)"

text \<open>The first half of \<^verbatim>\<open>trigger\<close>: the delay, and the timer, which is started with
  \<^verbatim>\<open>this._throttleMs\<close>.\<close>

definition effective_throttleMs :: "StoreBase \<Rightarrow> world \<Rightarrow> int option" where
  "effective_throttleMs this w =
     (case throttleMs this of Some t \<Rightarrow> Some t | None \<Rightarrow> defaultThrottleMs w)"

definition start_throttle :: "nat \<Rightarrow> world \<Rightarrow> world \<times> int option" where
  "start_throttle sid w =
     (let this = stores w sid;
          ms = effective_throttleMs this w
      in if truthy ms then
           (case throttleData this of
              None \<Rightarrow>
                (let (timer, w1) = Options_setTimeout sid (throttleMs this) w;
                     td = \<lparr>timerId = timer, callbackTime = int (now w) + the ms\<rparr>
                 in (update_store sid (\<lambda>s. s\<lparr>throttleData := Some td\<rparr>) w1,
                     Some (callbackTime td)))
            | Some td \<Rightarrow> (w, Some (callbackTime td)))
         else (w, None))"

text \<open>\<^verbatim>\<open>trigger(keyOrKeys?)\<close>; \<open>resolve\<close> is \<^verbatim>\<open>StoreBase._resolveCallbacks\<close>.\<close>

definition trigger :: "(world \<Rightarrow> world result) \<Rightarrow> nat \<Rightarrow> keyarg \<Rightarrow> world \<Rightarrow> world result" where
  "trigger resolve sid keyOrKeys w =
     (let (w1, until) = start_throttle sid w;
          this = stores w1 sid;
          bypass = bypassTriggerBlocks this;
          pending = (if all_keys_branch keyOrKeys
                     then register_all this until bypass (pendingCallbacks w1)
                     else register_keys this until bypass (trigger_keys keyOrKeys)
                            (pendingCallbacks w1));
          w2 = w1\<lparr>pendingCallbacks := pending\<rparr>
      in if \<not> truthy until \<or> bypass then resolve w2 else Ok w2)"

subsection \<open>Trigger blocks and the throttle switch\<close>

text \<open>Reading a static property on a class finds the property the class holds as its own,
  or else the one of its superclass, up to \<^verbatim>\<open>StoreBase\<close>; writing it on a class creates
  or changes the property of that class only.\<close>

fun static_get :: "(klass \<rightharpoonup> 'a) \<Rightarrow> 'a \<Rightarrow> klass \<Rightarrow> 'a" where
  "static_get own base [] = base"
| "static_get own base (c # super) =
     (case own (c # super) of Some v \<Rightarrow> v | None \<Rightarrow> static_get own base super)"

definition get_triggerBlockCount :: "klass \<Rightarrow> world \<Rightarrow> int" where
  "get_triggerBlockCount this w = static_get (ownTriggerBlockCount w) (triggerBlockCount w) this"

definition set_triggerBlockCount :: "klass \<Rightarrow> int \<Rightarrow> world \<Rightarrow> world" where
  "set_triggerBlockCount this v w =
     (if this = [] then w\<lparr>triggerBlockCount := v\<rparr>
      else w\<lparr>ownTriggerBlockCount := (ownTriggerBlockCount w)(this \<mapsto> v)\<rparr>)"

definition set_bypassThrottle :: "klass \<Rightarrow> bool \<Rightarrow> world \<Rightarrow> world" where
  "set_bypassThrottle this v w =
     (if this = [] then w\<lparr>bypassThrottle := v\<rparr>
      else w\<lparr>ownBypassThrottle := (ownBypassThrottle w)(this \<mapsto> v)\<rparr>)"

text \<open>\<^verbatim>\<open>static pushTriggerBlock()\<close>, called on the class \<open>this\<close>:
  \<^verbatim>\<open>this._triggerBlockCount++\<close>.\<close>

definition pushTriggerBlock :: "klass \<Rightarrow> world \<Rightarrow> world" where
  "pushTriggerBlock this w = set_triggerBlockCount this (get_triggerBlockCount this w + 1) w"

text \<open>\<^verbatim>\<open>static popTriggerBlock()\<close>, called on the class \<open>this\<close>; the decrement, the
  assertion and the test for zero all read \<^verbatim>\<open>this._triggerBlockCount\<close>.\<close>

definition popTriggerBlock :: "(world \<Rightarrow> world result) \<Rightarrow> klass \<Rightarrow> world \<Rightarrow> world result" where
  "popTriggerBlock resolve this w =
     (let w1 = set_triggerBlockCount this (get_triggerBlockCount this w - 1) w
      in if \<not> get_triggerBlockCount this w1 \<ge> 0 then Throw ImbalancedBlockStack
         else if get_triggerBlockCount this w1 = 0 then resolve w1
         else Ok w1)"

text \<open>\<^verbatim>\<open>static setThrottleStatus(enabled)\<close>, called on the class \<open>this\<close>:
  \<^verbatim>\<open>this._bypassThrottle = !enabled\<close>.\<close>

definition setThrottleStatus ::
  "(world \<Rightarrow> world result) \<Rightarrow> klass \<Rightarrow> bool \<Rightarrow> world \<Rightarrow> world result" where
  "setThrottleStatus resolve this enabled w = resolve (set_bypassThrottle this (\<not> enabled) w)"

text \<open>\<^verbatim>\<open>_handleThrottledCallbacks\<close>, which the timer of store \<open>sid\<close> calls.\<close>

definition handleThrottledCallbacks :: "(world \<Rightarrow> world result) \<Rightarrow> nat \<Rightarrow> world \<Rightarrow> world result" where
  "handleThrottledCallbacks resolve sid w =
     resolve (update_store sid (\<lambda>s. s\<lparr>throttleData := None\<rparr>) w)"

subsection \<open>The resolver\<close>

text \<open>The loop over \<^verbatim>\<open>_pendingCallbacks\<close>: the callbacks captured, with the argument each
  will get, and the entries left in the table.\<close>

fun capture ::
  "int \<Rightarrow> bool \<Rightarrow> nat \<Rightarrow> CallbackMap \<Rightarrow> (callback \<times> string list option) list \<times> CallbackMap" where
  "capture blockCount bypassThr currentTime [] = ([], [])"
| "capture blockCount bypassThr currentTime ((cb, meta) # rest) =
     (let (callbacks, kept) = capture blockCount bypassThr currentTime rest
      in if blockCount > 0 \<and> \<not> bypassBlock meta then (callbacks, (cb, meta) # kept)
         else if truthy (throttledUntil meta) \<and> the (throttledUntil meta) > int currentTime
                 \<and> \<not> bypassThr
         then (callbacks, (cb, meta) # kept)
         else ((cb, map_option uniq (keys meta)) # callbacks, kept))"

text \<open>What a callback does when it is called, given its argument and the state it finds:
  a sequence of calls of the public interface.\<close>

type_synonym behaviour = "callback \<Rightarrow> string list option \<Rightarrow> world \<Rightarrow> op list"

fun exec_op :: "(world \<Rightarrow> world result) \<Rightarrow> op \<Rightarrow> world \<Rightarrow> world result" where
  "exec_op resolve (OpTrigger sid a) w = trigger resolve sid a w"
| "exec_op resolve (OpSubscribe sid cb k) w = bind (subscribe sid cb k w) (\<lambda>r. Ok (snd r))"
| "exec_op resolve (OpUnsubscribe sid t) w = unsubscribe sid t w"
| "exec_op resolve (OpTrackAutoSubscription sid a) w = trackAutoSubscription sid a w"
| "exec_op resolve (OpRemoveAutoSubscription sid a) w = removeAutoSubscription sid a w"
| "exec_op resolve (OpPushTriggerBlock c) w = Ok (pushTriggerBlock c w)"
| "exec_op resolve (OpPopTriggerBlock c) w = popTriggerBlock resolve c w"
| "exec_op resolve (OpSetThrottleStatus c b) w = setThrottleStatus resolve c b w"

fun exec_ops :: "(world \<Rightarrow> world result) \<Rightarrow> op list \<Rightarrow> world \<Rightarrow> world result" where
  "exec_ops resolve [] w = Ok w"
| "exec_ops resolve (x # xs) w =
     bind (exec_op resolve x (w\<lparr>calls := calls w @ [Issued x]\<rparr>)) (exec_ops resolve xs)"

text \<open>\<^verbatim>\<open>callbacks.forEach(([callback, keys]) => callback(keys))\<close>.\<close>

fun invoke_callbacks ::
  "behaviour \<Rightarrow> (world \<Rightarrow> world result) \<Rightarrow> (callback \<times> string list option) list \<Rightarrow> world
     \<Rightarrow> world result" where
  "invoke_callbacks beh resolve [] w = Ok w"
| "invoke_callbacks beh resolve ((cb, ks) # rest) w =
     bind (exec_ops resolve (beh cb ks w) (w\<lparr>calls := calls w @ [Invoked cb ks]\<rparr>))
       (invoke_callbacks beh resolve rest)"

text \<open>The body of \<^verbatim>\<open>_resolveCallbacks\<close> after the guard, in three parts: up to the
  end of the loop over the table (\<open>begin_pass\<close>), the calls of the callbacks, and the
  statements after them (\<open>end_pass\<close>). \<open>resolve\<close> stands for the calls of
  \<^verbatim>\<open>_resolveCallbacks\<close> made by the callbacks and by the last statement.\<close>

definition begin_pass :: "world \<Rightarrow> (callback \<times> string list option) list \<times> world" where
  "begin_pass w =
     (let w1 = w\<lparr>isTriggering := True, triggerPending := False,
                 marks := marks w @ [BeginInvokeStoreCallbacks]\<rparr>;
          currentTime = now w1;
          (callbacks, kept) =
             capture (triggerBlockCount w1) (bypassThrottle w1) currentTime (pendingCallbacks w1)
      in (callbacks, w1\<lparr>pendingCallbacks := kept\<rparr>))"

definition end_pass :: "world \<Rightarrow> world" where
  "end_pass w = w\<lparr>marks := marks w @ [EndInvokeStoreCallbacks], isTriggering := False\<rparr>"

definition resolve_pass :: "behaviour \<Rightarrow> (world \<Rightarrow> world result) \<Rightarrow> world \<Rightarrow> world result" where
  "resolve_pass beh resolve w =
     (let (callbacks, w2) = begin_pass w
      in bind (invoke_callbacks beh resolve callbacks w2)
           (\<lambda>w3. let w4 = end_pass w3
                  in if triggerPending w4 then resolve w4 else Ok w4))"

text \<open>\<^verbatim>\<open>_resolveCallbacks\<close>. The fuel bounds the number of passes: every call made while
  a pass runs meets the guard, and the only call that starts a pass is the last statement of
  the pass before.\<close>

primrec resolveCallbacks :: "behaviour \<Rightarrow> nat \<Rightarrow> world \<Rightarrow> world result" where
  "resolveCallbacks beh 0 =
     (\<lambda>w. if isTriggering w then Ok (w\<lparr>triggerPending := True\<rparr>) else OutOfFuel)"
| "resolveCallbacks beh (Suc n) =
     (\<lambda>w. if isTriggering w then Ok (w\<lparr>triggerPending := True\<rparr>)
          else resolve_pass beh (resolveCallbacks beh n) w)"

subsection \<open>Observations\<close>

fun map_result :: "('a \<Rightarrow> 'b) \<Rightarrow> 'a result \<Rightarrow> 'b result" where
  "map_result f (Ok x) = Ok (f x)"
| "map_result f (Throw e) = Throw e"
| "map_result f OutOfFuel = OutOfFuel"

text \<open>The callback invocations of a trace, in order.\<close>

fun invoked_of :: "call list \<Rightarrow> (callback \<times> string list option) list" where
  "invoked_of [] = []"
| "invoked_of (Invoked cb ks # cs) = (cb, ks) # invoked_of cs"
| "invoked_of (Issued x # cs) = invoked_of cs"

text \<open>The invocations of a state are those of \<open>base\<close>, followed by more.\<close>

definition invoked_from :: "(callback \<times> string list option) list \<Rightarrow> world \<Rightarrow> bool" where
  "invoked_from base w = (\<exists>ext. invoked_of (calls w) = base @ ext)"

text \<open>What a call made while a pass runs leaves as it was.\<close>

definition same_pass :: "world \<Rightarrow> world \<Rightarrow> bool" where
  "same_pass w w' =
     (isTriggering w' = isTriggering w \<and> marks w' = marks w \<and> calls w' = calls w)"

text \<open>The instrumentation marks of \<open>k\<close> passes that ran one after the other.\<close>

definition passes :: "nat \<Rightarrow> mark list" where
  "passes k = concat (replicate k [BeginInvokeStoreCallbacks, EndInvokeStoreCallbacks])"

text \<open>A property of the state that a call keeps when it returns.\<close>

definition preserves :: "(world \<Rightarrow> bool) \<Rightarrow> (world \<Rightarrow> world result) \<Rightarrow> bool" where
  "preserves P f = (\<forall>w w'. P w \<and> f w = Ok w' \<longrightarrow> P w')"

subsection \<open>The two gates of the resolver, as the specification words them\<close>

definition skipped_by_block :: "world \<Rightarrow> CallbackMetadata \<Rightarrow> bool" where
  "skipped_by_block w meta = (triggerBlockCount w > 0 \<and> bypassBlock meta = False)"

definition skipped_by_throttle :: "world \<Rightarrow> CallbackMetadata \<Rightarrow> bool" where
  "skipped_by_throttle w meta =
     ((case throttledUntil meta of None \<Rightarrow> False | Some t \<Rightarrow> int (now w) < t)
      \<and> bypassThrottle w = False)"

definition passes_gates :: "world \<Rightarrow> callback \<times> CallbackMetadata \<Rightarrow> bool" where
  "passes_gates w e = (\<not> skipped_by_block w (snd e) \<and> \<not> skipped_by_throttle w (snd e))"

text \<open>What a delivered entry is called with: the deduplicated key list, or no argument
  (\<open>None\<close>) for the all-keys entry.\<close>

definition delivery :: "callback \<times> CallbackMetadata \<Rightarrow> callback \<times> string list option" where
  "delivery e = (fst e, case keys (snd e) of None \<Rightarrow> None | Some ks \<Rightarrow> Some (uniq ks))"

text \<open>The callback has a pending all-keys entry.\<close>

definition pending_all :: "CallbackMap \<Rightarrow> callback \<Rightarrow> bool" where
  "pending_all p cb = (case map_of p cb of None \<Rightarrow> False | Some m \<Rightarrow> keys m = None)"

subsection \<open>Subscriber counts and tracking hooks\<close>

text \<open>The combined subscriber count of a key: explicit subscriptions plus
  auto-subscriptions.\<close>

definition subscriber_count :: "StoreBase \<Rightarrow> string \<Rightarrow> nat" where
  "subscriber_count s k =
     length (entries_at (subscriptions s) k) + length (entries_at (autoSubscriptions s) k)"

text \<open>The hook call that a change of the count of a key asks for: started from zero to
  one, stopped from one to zero.\<close>

definition transition :: "string \<Rightarrow> nat \<Rightarrow> nat \<Rightarrow> hook list" where
  "transition k before after =
     (if before = 0 \<and> after = 1 then [StartedTrackingKey k]
      else if before = 1 \<and> after = 0 then [StoppedTrackingKey k]
      else [])"

text \<open>The hook calls asked for by the changes of the counts between two states of a store,
  over the keys other than \<open>Key_All\<close>.\<close>

definition tracked_keys :: "StoreBase \<Rightarrow> string list" where
  "tracked_keys s = map fst (subscriptions s) @ map fst (autoSubscriptions s)"

definition changes :: "StoreBase \<Rightarrow> StoreBase \<Rightarrow> hook list" where
  "changes s s' =
     concat (map (\<lambda>k. transition k (subscriber_count s k) (subscriber_count s' k))
       (filter (\<lambda>k. k \<noteq> Key_All) (remdups (tracked_keys s @ tracked_keys s'))))"

text \<open>The four registry operations, on one store.\<close>

fun registry_op :: "nat \<Rightarrow> op \<Rightarrow> bool" where
  "registry_op sid (OpSubscribe s cb k) = (s = sid)"
| "registry_op sid (OpUnsubscribe s t) = (s = sid)"
| "registry_op sid (OpTrackAutoSubscription s a) = (s = sid)"
| "registry_op sid (OpRemoveAutoSubscription s a) = (s = sid)"
| "registry_op sid x = False"

text \<open>The hook calls asked for along a run, from the counts before and after each call.\<close>

fun expected_hooks :: "(world \<Rightarrow> world result) \<Rightarrow> nat \<Rightarrow> op list \<Rightarrow> world \<Rightarrow> hook list" where
  "expected_hooks R sid [] w = []"
| "expected_hooks R sid (x # xs) w =
     (case exec_op R x (w\<lparr>calls := calls w @ [Issued x]\<rparr>) of
        Ok w' \<Rightarrow> changes (stores w sid) (stores w' sid) @ expected_hooks R sid xs w'
      | Throw e \<Rightarrow> []
      | OutOfFuel \<Rightarrow> [])"

text \<open>A dictionary as the registry keeps it: no key twice, no empty list.\<close>

definition wf_dict :: "(string \<times> 'a list) list \<Rightarrow> bool" where
  "wf_dict d = (distinct (map fst d) \<and> (\<forall>e \<in> set d. snd e \<noteq> []))"

definition wf_store :: "StoreBase \<Rightarrow> bool" where
  "wf_store s = (wf_dict (subscriptions s) \<and> wf_dict (autoSubscriptions s))"

text \<open>A state as the operations keep it: no callback twice in the pending table (it is a
  \<^verbatim>\<open>Map\<close>), and well-formed dictionaries in every store.\<close>

definition wf_world :: "world \<Rightarrow> bool" where
  "wf_world w =
     (distinct (map fst (pendingCallbacks w)) \<and> (\<forall>sid. wf_store (stores w sid)))"

subsection \<open>Initial states and scenarios\<close>

text \<open>\<^verbatim>\<open>new StoreBase(throttleMs, bypassTriggerBlocks)\<close>, and the static fields as the class
  initialises them.\<close>

definition new_store :: "int option \<Rightarrow> bool \<Rightarrow> StoreBase" where
  "new_store ms bypass =
     \<lparr>subscriptions = [], autoSubscriptions = [], subTokenNum = 1, subsByNum = Map.empty,
      throttleData = None, throttleMs = ms, bypassTriggerBlocks = bypass, hooks = []\<rparr>"

definition initial_world :: "(nat \<Rightarrow> StoreBase) \<Rightarrow> nat \<Rightarrow> int option \<Rightarrow> world" where
  "initial_world ss t dflt =
     \<lparr>triggerPending = False, isTriggering = False, triggerBlockCount = 0,
      bypassThrottle = False, ownTriggerBlockCount = Map.empty,
      ownBypassThrottle = Map.empty, pendingCallbacks = [], stores = ss, now = t,
      defaultThrottleMs = dflt, timeouts = [], calls = [], marks = []\<rparr>"

definition plain_world :: world where
  "plain_world = initial_world (\<lambda>_. new_store None False) 1000 None"

text \<open>Callbacks that call nothing.\<close>

definition quiet :: behaviour where
  "quiet cb ks w = []"

text \<open>A table with one entry behind each gate and two that pass, one trigger block pushed.\<close>

definition gate_world :: world where
  "gate_world = plain_world\<lparr>triggerBlockCount := 1, pendingCallbacks :=
     [(1, \<lparr>keys = Some [''a'', ''b'', ''a''], throttledUntil = None, bypassBlock = True\<rparr>),
      (2, \<lparr>keys = None, throttledUntil = Some 2000, bypassBlock = True\<rparr>),
      (3, \<lparr>keys = Some [''c''], throttledUntil = None, bypassBlock = False\<rparr>),
      (4, \<lparr>keys = None, throttledUntil = Some 500, bypassBlock = True\<rparr>)]\<rparr>"

text \<open>Callback 1 listens to key \<open>a\<close> and triggers key \<open>b\<close> when called; callback 2 listens
  to key \<open>b\<close>. A trigger of \<open>a\<close> is pending.\<close>

definition chain_beh :: behaviour where
  "chain_beh cb ks w = (if cb = 1 then [OpTrigger 0 (One (Str ''b''))] else [])"

definition chain_world :: world where
  "chain_world = plain_world\<lparr>
     stores := (\<lambda>_. new_store None False)(0 := (new_store None False)\<lparr>
       subscriptions := [(''a'', [1]), (''b'', [2])], subTokenNum := 3,
       subsByNum := [1 \<mapsto> (''a'', 1), 2 \<mapsto> (''b'', 2)],
       hooks := [StartedTrackingKey ''a'', StartedTrackingKey ''b'']\<rparr>),
     pendingCallbacks :=
       [(1, \<lparr>keys = Some [''a''], throttledUntil = None, bypassBlock = False\<rparr>)]\<rparr>"

text \<open>Callback 1 listens to key \<open>a\<close>; an all-keys trigger for it is pending behind a block.\<close>

definition sticky_world :: world where
  "sticky_world = plain_world\<lparr>
     triggerBlockCount := 1,
     stores := (\<lambda>_. new_store None False)(0 := (new_store None False)\<lparr>
       subscriptions := [(''a'', [1])], subTokenNum := 2, subsByNum := [1 \<mapsto> (''a'', 1)],
       hooks := [StartedTrackingKey ''a'']\<rparr>),
     pendingCallbacks := [(1, \<lparr>keys = None, throttledUntil = None, bypassBlock = False\<rparr>)]\<rparr>"

text \<open>The same state once the block is popped: nothing holds the entry back.\<close>

definition sticky_ready :: world where
  "sticky_ready = sticky_world\<lparr>triggerBlockCount := 0\<rparr>"

text \<open>Store 0 has no delay, store 1 a delay of 500 ms; callback 1 listens to key \<open>a\<close> of
  both. Behind a block, store 0 triggers \<open>a\<close>, then store 1 triggers (all keys in the first
  run, key \<open>a\<close> in the second), and the block is popped.\<close>

definition two_stores :: world where
  "two_stores = initial_world ((\<lambda>_. new_store None False)(1 := new_store (Some 500) False)) 1000 None"

definition merge_run :: "keyarg \<Rightarrow> op list" where
  "merge_run second =
     [OpSubscribe 0 1 (Some (Str ''a'')), OpSubscribe 1 1 (Some (Str ''a'')), OpPushTriggerBlock [],
      OpTrigger 0 (One (Str ''a'')), OpTrigger 1 second, OpPopTriggerBlock []]"

text \<open>A store without a delay of its own, under a default delay of 100 ms.\<close>

definition default_delay_world :: world where
  "default_delay_world = initial_world (\<lambda>_. new_store None False) 1000 (Some 100)"

text \<open>Store 1 bypasses trigger blocks. Callback 1 listens to key \<open>a\<close> of store 1 and,
  when called, pops the trigger block and pushes it again; callback 2 listens to key \<open>b\<close>
  of store 0.\<close>

definition bypass_world :: world where
  "bypass_world = initial_world ((\<lambda>_. new_store None False)(1 := new_store None True)) 1000 None"

definition pop_beh :: behaviour where
  "pop_beh cb ks w = (if cb = 1 then [OpPopTriggerBlock [], OpPushTriggerBlock []] else [])"

definition pop_run :: "op list" where
  "pop_run = [OpSubscribe 1 1 (Some (Str ''a'')), OpSubscribe 0 2 (Some (Str ''b'')),
     OpPushTriggerBlock [], OpTrigger 0 (One (Str ''b'')), OpTrigger 1 (One (Str ''a''))]"

text \<open>Callbacks 1 and 2 listen to key \<open>a\<close>; callback 1 unsubscribes callback 2 (token 2)
  when called.\<close>

definition unsub_beh :: behaviour where
  "unsub_beh cb ks w = (if cb = 1 then [OpUnsubscribe 0 2] else [])"

definition unsub_run :: "op list" where
  "unsub_run = [OpSubscribe 0 1 (Some (Str ''a'')), OpSubscribe 0 2 (Some (Str ''a'')),
     OpTrigger 0 (One (Str ''a''))]"

text \<open>Callback 1 listens to keys \<open>a\<close> (token 1) and \<open>b\<close> (token 2); a trigger of \<open>b\<close>
  is pending behind a block.\<close>

definition two_keys_world :: world where
  "two_keys_world = plain_world\<lparr>
     triggerBlockCount := 1,
     stores := (\<lambda>_. new_store None False)(0 := (new_store None False)\<lparr>
       subscriptions := [(''a'', [1]), (''b'', [1])], subTokenNum := 3,
       subsByNum := [1 \<mapsto> (''a'', 1), 2 \<mapsto> (''b'', 1)],
       hooks := [StartedTrackingKey ''a'', StartedTrackingKey ''b'']\<rparr>),
     pendingCallbacks := [(1, \<lparr>keys = Some [''b''], throttledUntil = None, bypassBlock = False\<rparr>)]\<rparr>"

definition two_keys_run :: "op list" where
  "two_keys_run = [OpSubscribe 0 1 (Some (Str ''a'')), OpSubscribe 0 1 (Some (Str ''b'')),
     OpPushTriggerBlock [], OpTrigger 0 (One (Str ''b'')), OpUnsubscribe 0 1, OpPopTriggerBlock []]"

text \<open>An auto-subscription of callback 5 to key \<open>a\<close>, with a trigger pending behind a
  block.\<close>

definition auto_sub :: AutoSubscription where
  "auto_sub = \<lparr>as_ref = 1, as_store = 0, as_callback = 5, as_key = ''a'', as_used = False\<rparr>"

definition auto_world :: world where
  "auto_world = plain_world\<lparr>
     triggerBlockCount := 1,
     stores := (\<lambda>_. new_store None False)(0 := (new_store None False)\<lparr>
       autoSubscriptions := [(''a'', [auto_sub])], hooks := [StartedTrackingKey ''a'']\<rparr>),
     pendingCallbacks := [(5, \<lparr>keys = Some [''a''], throttledUntil = None, bypassBlock = False\<rparr>)]\<rparr>"

text \<open>Subscriptions and auto-subscriptions of store 0 coming and going under the keys
  \<open>a\<close>, \<open>7\<close> and \<open>Key_All\<close>.\<close>

definition registry_run :: "op list" where
  "registry_run =
     [OpSubscribe 0 1 (Some (Str ''a'')),
      OpTrackAutoSubscription 0
        \<lparr>as_ref = 1, as_store = 0, as_callback = 5, as_key = ''a'', as_used = False\<rparr>,
      OpSubscribe 0 2 (Some (Num 7)),
      OpUnsubscribe 0 1,
      OpSubscribe 0 3 None,
      OpRemoveAutoSubscription 0
        \<lparr>as_ref = 1, as_store = 0, as_callback = 5, as_key = ''a'', as_used = False\<rparr>,
      OpUnsubscribe 0 2]"

section \<open>Properties\<close>

subsection \<open>Results and traces\<close>

lemma bind_Ok: "bind r f = Ok y \<longleftrightarrow> (\<exists>x. r = Ok x \<and> f x = Ok y)"
  by (cases r) auto

lemma map_result_Ok: "map_result f r = Ok y \<longleftrightarrow> (\<exists>x. r = Ok x \<and> y = f x)"
  by (cases r) auto

lemma invoked_of_append: "invoked_of (xs @ ys) = invoked_of xs @ invoked_of ys"
  by (induction xs rule: invoked_of.induct) auto

lemma uniq_from_set: "set (uniq_from seen xs) = set xs - set seen"
  by (induction xs arbitrary: seen) auto

lemma uniq_from_distinct: "distinct (uniq_from seen xs)"
  by (induction xs arbitrary: seen) (auto simp: uniq_from_set)

lemma uniq_dedupes: "set (uniq xs) = set xs \<and> distinct (uniq xs)"
  by (simp add: uniq_def uniq_from_set uniq_from_distinct)

subsection \<open>Merging into the pending table\<close>

lemma keys_updateExistingMeta: "keys (updateExistingMeta e u b) = keys e"
  by (simp add: updateExistingMeta_def Let_def)

lemma map_of_setupSpecific_same:
  "map_of (setupSpecificKeySubscription ks cb until bypass p) cb =
     (case map_of p cb of
        None \<Rightarrow> Some \<lparr>keys = Some ks, throttledUntil = until, bypassBlock = bypass\<rparr>
      | Some e \<Rightarrow> Some ((updateExistingMeta e until bypass)
                         \<lparr>keys := map_option (\<lambda>old. old @ ks) (keys e)\<rparr>))"
  by (auto simp: setupSpecificKeySubscription_def updateExistingMeta_def Let_def
      AList.update_conv' split: option.splits)

lemma map_of_setupSpecific_other:
  "cb' \<noteq> cb \<Longrightarrow> map_of (setupSpecificKeySubscription ks cb' until bypass p) cb = map_of p cb"
  by (auto simp: setupSpecificKeySubscription_def Let_def AList.update_conv' split: option.splits)

lemma map_of_setupAll_same:
  "map_of (setupAllKeySubscription cb until bypass p) cb =
     Some \<lparr>keys = None,
           throttledUntil =
             (case map_of p cb of
                Some e \<Rightarrow> if truthy until \<and> truthy (throttledUntil e)
                          then Some (min (the until) (the (throttledUntil e))) else until
              | None \<Rightarrow> until),
           bypassBlock =
             (case map_of p cb of Some e \<Rightarrow> bypassBlock e \<or> bypass | None \<Rightarrow> bypass)\<rparr>"
  by (auto simp: setupAllKeySubscription_def Let_def AList.update_conv' split: option.splits)

lemma map_of_setupAll_other:
  "cb' \<noteq> cb \<Longrightarrow> map_of (setupAllKeySubscription cb' until bypass p) cb = map_of p cb"
  by (auto simp: setupAllKeySubscription_def Let_def AList.update_conv' split: option.splits)

lemma distinct_setupSpecific:
  "distinct (map fst p) \<Longrightarrow> distinct (map fst (setupSpecificKeySubscription ks cb until bypass p))"
  by (auto simp: setupSpecificKeySubscription_def Let_def AList.distinct_update
      split: option.splits)

lemma distinct_setupAll:
  "distinct (map fst p) \<Longrightarrow> distinct (map fst (setupAllKeySubscription cb until bypass p))"
  by (auto simp: setupAllKeySubscription_def Let_def AList.distinct_update split: option.splits)

lemma distinct_fold_setupSpecific:
  "distinct (map fst p) \<Longrightarrow>
     distinct (map fst (fold (\<lambda>x. setupSpecificKeySubscription ks (f x) u b) xs p))"
  by (induction xs arbitrary: p) (simp_all add: distinct_setupSpecific)

lemma distinct_fold_setupAll:
  "distinct (map fst p) \<Longrightarrow>
     distinct (map fst (fold (\<lambda>x. setupAllKeySubscription (f x) u b) xs p))"
  by (induction xs arbitrary: p) (simp_all add: distinct_setupAll)

lemma distinct_register_key:
  "distinct (map fst p) \<Longrightarrow> distinct (map fst (register_key this u b k p))"
  unfolding register_key_def Let_def
  by (intro distinct_fold_setupSpecific[where f = "\<lambda>x. x"]
        distinct_fold_setupSpecific[where f = as_callback])

lemma distinct_fold_register_key:
  "distinct (map fst p) \<Longrightarrow> distinct (map fst (fold (register_key this u b) ks p))"
  by (induction ks arbitrary: p) (simp_all add: distinct_register_key)

lemma distinct_register_keys:
  "distinct (map fst p) \<Longrightarrow> distinct (map fst (register_keys this u b ks p))"
  unfolding register_keys_def Let_def
  by (intro distinct_fold_setupSpecific[where f = "\<lambda>x. x"]
        distinct_fold_setupSpecific[where f = as_callback] distinct_fold_register_key)

lemma distinct_register_all:
  "distinct (map fst p) \<Longrightarrow> distinct (map fst (register_all this u b p))"
  unfolding register_all_def Let_def
  by (intro distinct_fold_setupAll[where f = "\<lambda>x. x"]
        distinct_fold_setupAll[where f = as_callback])

text \<open>What the merge of a specific-key trigger does to the due-time and the bypass flag of an
  entry: the minimum of two due-times, immediate as soon as one side is, the flags OR-ed.\<close>

lemma specific_merge_meta:
  assumes "map_of p cb = Some e"
    and "map_of (setupSpecificKeySubscription ks cb until bypass p) cb = Some m"
  shows "throttledUntil m =
           (if truthy until \<and> truthy (throttledUntil e)
            then Some (min (the (throttledUntil e)) (the until))
            else if truthy until then throttledUntil e else None)"
    and "bypassBlock m = (bypassBlock e \<or> bypass)"
  using assms
  by (auto simp: map_of_setupSpecific_same updateExistingMeta_def Let_def split: if_splits)

text \<open>What the all-keys merge does: the key list becomes the all-keys marker, the flags are
  OR-ed, and the due-time is the minimum when both sides have one, the new due-time
  otherwise.\<close>

lemma all_keys_merge_meta:
  assumes "map_of p cb = Some e"
    and "map_of (setupAllKeySubscription cb until bypass p) cb = Some m"
  shows "keys m = None"
    and "throttledUntil m =
           (if truthy until \<and> truthy (throttledUntil e)
            then Some (min (the until) (the (throttledUntil e))) else until)"
    and "bypassBlock m = (bypassBlock e \<or> bypass)"
  using assms by (auto simp: map_of_setupAll_same)

text \<open>C2: the merged due-time is the minimum of the two, immediate whenever either side is
  immediate, for specific-key and all-keys merges alike. The all-keys merge of
  \<^verbatim>\<open>_setupAllKeySubscription\<close> does not keep an entry immediate: merging a trigger due at
  1500 into an immediate entry gives an entry due at 1500, where the specific-key merge of
  the same trigger keeps it immediate. In the run of \<open>merge_run\<close>, callback 1 has an
  immediate trigger pending behind the block; after the all-keys trigger of the throttled
  store, popping the block no longer delivers it.\<close>

theorem all_keys_merge_loses_immediate:
  "setupAllKeySubscription 1 (Some 1500) False
     [(1, \<lparr>keys = Some [''a''], throttledUntil = None, bypassBlock = False\<rparr>)]
     = [(1, \<lparr>keys = None, throttledUntil = Some 1500, bypassBlock = False\<rparr>)]
   \<and> setupSpecificKeySubscription [''a''] 1 (Some 1500) False
     [(1, \<lparr>keys = Some [''a''], throttledUntil = None, bypassBlock = False\<rparr>)]
     = [(1, \<lparr>keys = Some [''a'', ''a''], throttledUntil = None, bypassBlock = False\<rparr>)]
   \<and> map_result (\<lambda>w. (invoked_of (calls w), pendingCallbacks w))
       (exec_ops (resolveCallbacks quiet 3) (merge_run NoArg) two_stores)
     = Ok ([], [(1, \<lparr>keys = None, throttledUntil = Some 1500, bypassBlock = False\<rparr>)])
   \<and> map_result (\<lambda>w. (invoked_of (calls w), pendingCallbacks w))
       (exec_ops (resolveCallbacks quiet 3) (merge_run (One (Str ''a''))) two_stores)
     = Ok ([(1, Some [''a''])], [])"
  by code_simp

subsection \<open>The branch of trigger\<close>

text \<open>C4: the all-keys branch of \<^verbatim>\<open>trigger\<close> is taken exactly when no key argument was
  supplied. The source tests truthiness, with numbers excepted, so the empty string takes
  the all-keys branch too: the branch is taken exactly when the argument is absent or is the
  empty string, \<^verbatim>\<open>trigger('')\<close> is \<^verbatim>\<open>trigger()\<close>, and every number (0 included),
  every non-empty string and every array is a specific-keys trigger.\<close>

theorem all_keys_branch_iff:
  "(all_keys_branch a \<longleftrightarrow> a = NoArg \<or> a = One (Str []))
   \<and> trigger R sid (One (Str [])) w = trigger R sid NoArg w"
proof -
  have 1: "all_keys_branch a \<longleftrightarrow> a = NoArg \<or> a = One (Str [])"
    by (cases a rule: falsy_arg.cases) (auto simp: all_keys_branch_def)
  have 2: "trigger R sid (One (Str [])) w = trigger R sid NoArg w"
    by (simp add: trigger_def all_keys_branch_def)
  from 1 2 show ?thesis by (rule conjI)
qed

theorem all_keys_branch_iff_witness:
  "\<not> all_keys_branch (One (Num 0)) \<and> \<not> all_keys_branch (One (Str ''0''))
   \<and> \<not> all_keys_branch (Many []) \<and> all_keys_branch NoArg"
  using all_keys_branch_iff [of "One (Num 0)", THEN conjunct1]
    all_keys_branch_iff [of "One (Str ''0'')", THEN conjunct1]
    all_keys_branch_iff [of "Many []", THEN conjunct1]
    all_keys_branch_iff [of NoArg, THEN conjunct1]
  by simp

text \<open>Callback 1 listens to key \<open>a\<close> only; \<^verbatim>\<open>trigger('')\<close> calls it with no argument, as
  \<^verbatim>\<open>trigger()\<close> does.\<close>

theorem empty_string_takes_all_keys_branch:
  "all_keys_branch (One (Str ''''))
   \<and> map_result (\<lambda>w. invoked_of (calls w))
       (exec_ops (resolveCallbacks quiet 2)
          [OpSubscribe 0 1 (Some (Str ''a'')), OpTrigger 0 (One (Str ''''))] plain_world)
     = Ok [(1, None)]"
  by code_simp

subsection \<open>Calls made while a pass runs\<close>

lemma resolve_guard:
  "isTriggering w \<Longrightarrow> resolveCallbacks beh n w = Ok (w\<lparr>triggerPending := True\<rparr>)"
  by (cases n) simp_all

lemma start_throttle_same: "start_throttle sid w = (w1, u) \<Longrightarrow> same_pass w w1"
  by (auto simp: start_throttle_def Options_setTimeout_def same_pass_def update_store_def Let_def
      split: if_splits option.splits)

lemma trigger_in_pass:
  assumes "isTriggering w"
  shows "\<exists>w'. trigger (resolveCallbacks beh n) sid a w = Ok w' \<and> same_pass w w'"
proof -
  obtain w1 u where st: "start_throttle sid w = (w1, u)" by (cases "start_throttle sid w")
  have sp: "same_pass w w1" using st by (rule start_throttle_same)
  then have "isTriggering w1" using assms by (simp add: same_pass_def)
  then show ?thesis using sp
    by (simp add: trigger_def st Let_def resolve_guard same_pass_def)
qed

lemma subscribe_same: "subscribe sid cb k w = Ok (t, w') \<Longrightarrow> same_pass w w'"
  by (auto simp: subscribe_def same_pass_def update_store_def Let_def split: if_splits option.splits)

lemma unsubscribe_same: "unsubscribe sid t w = Ok w' \<Longrightarrow> same_pass w w'"
  by (auto simp: unsubscribe_def same_pass_def update_store_def Let_def
      split: if_splits option.splits prod.splits)

lemma track_same: "trackAutoSubscription sid a w = Ok w' \<Longrightarrow> same_pass w w'"
  by (auto simp: trackAutoSubscription_def same_pass_def update_store_def Let_def
      split: if_splits option.splits)

lemma remove_same: "removeAutoSubscription sid a w = Ok w' \<Longrightarrow> same_pass w w'"
  by (auto simp: removeAutoSubscription_def same_pass_def update_store_def Let_def
      split: if_splits option.splits)

lemma set_static_frame:
  shows "isTriggering (set_triggerBlockCount c v w) = isTriggering w"
    and "triggerPending (set_triggerBlockCount c v w) = triggerPending w"
    and "marks (set_triggerBlockCount c v w) = marks w"
    and "calls (set_triggerBlockCount c v w) = calls w"
    and "pendingCallbacks (set_triggerBlockCount c v w) = pendingCallbacks w"
    and "stores (set_triggerBlockCount c v w) = stores w"
    and "isTriggering (set_bypassThrottle c b w) = isTriggering w"
    and "triggerPending (set_bypassThrottle c b w) = triggerPending w"
    and "marks (set_bypassThrottle c b w) = marks w"
    and "calls (set_bypassThrottle c b w) = calls w"
    and "pendingCallbacks (set_bypassThrottle c b w) = pendingCallbacks w"
    and "stores (set_bypassThrottle c b w) = stores w"
    and "triggerBlockCount (set_bypassThrottle c b w) = triggerBlockCount w"
  by (simp_all add: set_triggerBlockCount_def set_bypassThrottle_def)

lemma shared_triggerBlockCount:
  shows "get_triggerBlockCount [] w = triggerBlockCount w"
    and "triggerBlockCount (set_triggerBlockCount c v w) = (if c = [] then v else triggerBlockCount w)"
    and "get_triggerBlockCount c (set_triggerBlockCount c v w) = v"
  by (cases c; simp add: set_triggerBlockCount_def get_triggerBlockCount_def)+

lemma pop_in_pass:
  "isTriggering w \<Longrightarrow> popTriggerBlock (resolveCallbacks beh n) c w = Ok w' \<Longrightarrow> same_pass w w'"
  by (auto simp: popTriggerBlock_def same_pass_def Let_def resolve_guard set_static_frame
      split: if_splits)

lemma exec_op_in_pass:
  assumes "isTriggering w" and "exec_op (resolveCallbacks beh n) x w = Ok w'"
  shows "same_pass w w'"
proof (cases x)
  case (OpTrigger sid a)
  then show ?thesis using assms trigger_in_pass[OF assms(1), of beh n sid a] by auto
next
  case (OpSubscribe sid cb k)
  then show ?thesis using assms
    by (cases "subscribe sid cb k w") (auto dest: subscribe_same)
next
  case (OpUnsubscribe sid t)
  then show ?thesis using assms by (auto dest: unsubscribe_same)
next
  case (OpTrackAutoSubscription sid a)
  then show ?thesis using assms by (auto dest: track_same)
next
  case (OpRemoveAutoSubscription sid a)
  then show ?thesis using assms by (auto dest: remove_same)
next
  case (OpPushTriggerBlock c)
  then show ?thesis using assms by (auto simp: pushTriggerBlock_def same_pass_def set_static_frame)
next
  case (OpPopTriggerBlock c)
  then show ?thesis using assms by (auto dest: pop_in_pass)
next
  case (OpSetThrottleStatus c b)
  then show ?thesis using assms
    by (auto simp: setThrottleStatus_def resolve_guard same_pass_def set_static_frame)
qed

lemma exec_op_fuel:
  assumes "isTriggering w"
  shows "exec_op (resolveCallbacks beh n) x w \<noteq> OutOfFuel"
proof (cases x)
  case (OpTrigger sid a)
  then show ?thesis using trigger_in_pass[OF assms, of beh n sid a] by auto
next
  case (OpSubscribe sid cb k)
  then show ?thesis
    by (auto simp: subscribe_def Let_def split: if_splits option.splits)
next
  case (OpUnsubscribe sid t)
  then show ?thesis
    by (auto simp: unsubscribe_def Let_def split: if_splits option.splits prod.splits)
next
  case (OpTrackAutoSubscription sid a)
  then show ?thesis by (auto simp: trackAutoSubscription_def Let_def split: if_splits option.splits)
next
  case (OpRemoveAutoSubscription sid a)
  then show ?thesis
    by (auto simp: removeAutoSubscription_def Let_def split: if_splits option.splits)
next
  case (OpPushTriggerBlock c)
  then show ?thesis by simp
next
  case (OpPopTriggerBlock c)
  then show ?thesis using assms
    by (auto simp: popTriggerBlock_def Let_def resolve_guard set_static_frame split: if_splits)
next
  case (OpSetThrottleStatus c b)
  then show ?thesis using assms
    by (auto simp: setThrottleStatus_def resolve_guard set_static_frame)
qed

lemma exec_ops_in_pass:
  "isTriggering w \<Longrightarrow> exec_ops (resolveCallbacks beh n) xs w = Ok w' \<Longrightarrow>
     isTriggering w' \<and> marks w' = marks w \<and> invoked_of (calls w') = invoked_of (calls w)"
proof (induction xs arbitrary: w)
  case Nil
  then show ?case by simp
next
  case (Cons x xs)
  let ?w0 = "w\<lparr>calls := calls w @ [Issued x]\<rparr>"
  from Cons.prems obtain w1 where
    1: "exec_op (resolveCallbacks beh n) x ?w0 = Ok w1" and
    2: "exec_ops (resolveCallbacks beh n) xs w1 = Ok w'"
    by (auto simp: bind_Ok)
  have t0: "isTriggering ?w0" using Cons.prems by simp
  have sp: "same_pass ?w0 w1" using exec_op_in_pass[OF t0 1] .
  then have t1: "isTriggering w1" using t0 by (simp add: same_pass_def)
  from Cons.IH[OF t1 2] sp show ?case
    by (simp add: same_pass_def invoked_of_append)
qed

lemma exec_ops_fuel:
  "isTriggering w \<Longrightarrow> exec_ops (resolveCallbacks beh n) xs w \<noteq> OutOfFuel"
proof (induction xs arbitrary: w)
  case Nil
  then show ?case by simp
next
  case (Cons x xs)
  let ?w0 = "w\<lparr>calls := calls w @ [Issued x]\<rparr>"
  have t0: "isTriggering ?w0" using Cons.prems by simp
  show ?case
  proof (cases "exec_op (resolveCallbacks beh n) x ?w0")
    case (Ok w1)
    then have "isTriggering w1" using exec_op_in_pass[OF t0 Ok] t0 by (simp add: same_pass_def)
    then show ?thesis using Cons.IH Ok by simp
  next
    case (Throw e)
    then show ?thesis by simp
  next
    case OutOfFuel
    then show ?thesis using exec_op_fuel[OF t0] by blast
  qed
qed

lemma invoke_callbacks_in_pass:
  "isTriggering w \<Longrightarrow> invoke_callbacks beh (resolveCallbacks beh n) cbs w = Ok w' \<Longrightarrow>
     isTriggering w' \<and> marks w' = marks w \<and> invoked_of (calls w') = invoked_of (calls w) @ cbs"
proof (induction cbs arbitrary: w)
  case Nil
  then show ?case by simp
next
  case (Cons c cbs)
  obtain cb ks where c: "c = (cb, ks)" by (cases c)
  let ?w0 = "w\<lparr>calls := calls w @ [Invoked cb ks]\<rparr>"
  from Cons.prems c obtain w1 where
    1: "exec_ops (resolveCallbacks beh n) (beh cb ks w) ?w0 = Ok w1" and
    2: "invoke_callbacks beh (resolveCallbacks beh n) cbs w1 = Ok w'"
    by (auto simp: bind_Ok)
  have t0: "isTriggering ?w0" using Cons.prems by simp
  from exec_ops_in_pass[OF t0 1] Cons.IH[OF _ 2] c show ?case
    by (simp add: invoked_of_append)
qed

lemma invoke_callbacks_fuel:
  "isTriggering w \<Longrightarrow> invoke_callbacks beh (resolveCallbacks beh n) cbs w \<noteq> OutOfFuel"
proof (induction cbs arbitrary: w)
  case Nil
  then show ?case by simp
next
  case (Cons c cbs)
  obtain cb ks where c: "c = (cb, ks)" by (cases c)
  let ?w0 = "w\<lparr>calls := calls w @ [Invoked cb ks]\<rparr>"
  have t0: "isTriggering ?w0" using Cons.prems by simp
  show ?case
  proof (cases "exec_ops (resolveCallbacks beh n) (beh cb ks w) ?w0")
    case (Ok w1)
    then have "isTriggering w1" using exec_ops_in_pass[OF t0 Ok] by simp
    then show ?thesis using Cons.IH Ok c by simp
  next
    case (Throw e)
    then show ?thesis using c by simp
  next
    case OutOfFuel
    then show ?thesis using exec_ops_fuel[OF t0] by blast
  qed
qed

subsection \<open>The resolver pass\<close>

lemma capture_eq:
  "capture (triggerBlockCount w) (bypassThrottle w) (now w) tbl =
     (map delivery (filter (passes_gates w) tbl), filter (\<lambda>e. \<not> passes_gates w e) tbl)"
proof (induction tbl)
  case Nil
  then show ?case by simp
next
  case (Cons e tbl)
  obtain cb meta where e: "e = (cb, meta)" by (cases e)
  have thr: "(truthy (throttledUntil meta) \<and> the (throttledUntil meta) > int (now w))
      = (case throttledUntil meta of None \<Rightarrow> False | Some t \<Rightarrow> int (now w) < t)"
    by (cases "throttledUntil meta") auto
  show ?case unfolding e
    by (simp add: Cons.IH thr passes_gates_def skipped_by_block_def skipped_by_throttle_def
        delivery_def option.map_sel split: option.splits)
qed

lemma begin_pass_eq:
  "begin_pass w =
     (map delivery (filter (passes_gates w) (pendingCallbacks w)),
      w\<lparr>isTriggering := True, triggerPending := False,
        marks := marks w @ [BeginInvokeStoreCallbacks],
        pendingCallbacks := filter (\<lambda>e. \<not> passes_gates w e) (pendingCallbacks w)\<rparr>)"
proof -
  let ?w1 = "w\<lparr>isTriggering := True, triggerPending := False,
                 marks := marks w @ [BeginInvokeStoreCallbacks]\<rparr>"
  have "capture (triggerBlockCount w) (bypassThrottle w) (now w) (pendingCallbacks w) =
     (map delivery (filter (passes_gates w) (pendingCallbacks w)),
      filter (\<lambda>e. \<not> passes_gates w e) (pendingCallbacks w))"
    by (rule capture_eq)
  then show ?thesis
    by (simp add: begin_pass_def Let_def)
qed

lemma map_fst_delivery: "map fst (map delivery xs) = map fst xs"
  by (induction xs) (simp_all add: delivery_def)

lemma distinct_deliveries:
  assumes "distinct (map fst tbl)"
  shows "distinct (map fst (map delivery (filter P tbl)))"
  unfolding map_fst_delivery using assms by (rule distinct_map_filter)

lemma delivery_deduplicated:
  "(cb, Some ks) \<in> set (map delivery xs) \<Longrightarrow> distinct ks"
  by (auto simp: delivery_def uniq_dedupes split: option.splits)

subsection \<open>Passes run one after the other\<close>

lemma begin_pass_fields:
  "begin_pass w = (cbs, w2) \<Longrightarrow>
     isTriggering w2 \<and> \<not> triggerPending w2 \<and> marks w2 = marks w @ [BeginInvokeStoreCallbacks]"
  by (auto simp: begin_pass_eq)

lemma resolve_pass_Ok:
  assumes "resolve_pass beh (resolveCallbacks beh n) w = Ok w'"
  obtains cbs w2 w3 where "begin_pass w = (cbs, w2)"
    and "invoke_callbacks beh (resolveCallbacks beh n) cbs w2 = Ok w3"
    and "(if triggerPending (end_pass w3) then resolveCallbacks beh n (end_pass w3)
          else Ok (end_pass w3)) = Ok w'"
proof -
  obtain cbs w2 where b: "begin_pass w = (cbs, w2)" by (cases "begin_pass w")
  from assms obtain w3 where "invoke_callbacks beh (resolveCallbacks beh n) cbs w2 = Ok w3"
    and "(if triggerPending (end_pass w3) then resolveCallbacks beh n (end_pass w3)
          else Ok (end_pass w3)) = Ok w'"
    by (auto simp: resolve_pass_def b bind_Ok Let_def)
  with b that show ?thesis by blast
qed

lemma passes_in_sequence:
  "\<not> isTriggering w \<Longrightarrow> resolveCallbacks beh n w = Ok w' \<Longrightarrow>
     (\<exists>k. marks w' = marks w @ passes (Suc k)) \<and> \<not> isTriggering w' \<and> \<not> triggerPending w'"
proof (induction n arbitrary: w)
  case 0
  then show ?case by simp
next
  case (Suc n)
  from Suc.prems have "resolve_pass beh (resolveCallbacks beh n) w = Ok w'" by simp
  then obtain cbs w2 w3 where b: "begin_pass w = (cbs, w2)"
    and i: "invoke_callbacks beh (resolveCallbacks beh n) cbs w2 = Ok w3"
    and r: "(if triggerPending (end_pass w3) then resolveCallbacks beh n (end_pass w3)
          else Ok (end_pass w3)) = Ok w'"
    by (rule resolve_pass_Ok)
  from begin_pass_fields[OF b] have t2: "isTriggering w2"
    and m2: "marks w2 = marks w @ [BeginInvokeStoreCallbacks]" by simp_all
  from invoke_callbacks_in_pass[OF t2 i] have m3: "marks w3 = marks w2" by simp
  have m4: "marks (end_pass w3) = marks w @ passes (Suc 0)"
    by (simp add: end_pass_def m3 m2 passes_def)
  have t4: "\<not> isTriggering (end_pass w3)" by (simp add: end_pass_def)
  show ?case
  proof (cases "triggerPending (end_pass w3)")
    case True
    with r have "resolveCallbacks beh n (end_pass w3) = Ok w'" by simp
    from Suc.IH[OF t4 this] obtain k where
      "marks w' = marks (end_pass w3) @ passes (Suc k)" and rest: "\<not> isTriggering w'" "\<not> triggerPending w'"
      by blast
    then have "marks w' = marks w @ passes (Suc (Suc k))"
      by (simp add: m4 passes_def)
    with rest show ?thesis by blast
  next
    case False
    with r have "w' = end_pass w3" by simp
    with m4 t4 False show ?thesis by blast
  qed
qed

lemma invoke_quiet:
  "invoke_callbacks quiet R cbs w = Ok (w\<lparr>calls := calls w @ map (\<lambda>c. Invoked (fst c) (snd c)) cbs\<rparr>)"
  by (induction cbs arbitrary: w) (auto simp: quiet_def)

text \<open>With callbacks that call nothing, one unit of fuel is enough: the resolver returns
  after one pass.\<close>

lemma resolve_quiet_returns:
  assumes "\<not> isTriggering w"
  shows "\<exists>w'. resolveCallbacks quiet (Suc n) w = Ok w' \<and> marks w' = marks w @ passes 1
     \<and> invoked_of (calls w') = invoked_of (calls w) @ fst (begin_pass w)"
proof -
  have i: "invoked_of (map (\<lambda>c. Invoked (fst c) (snd c)) cbs) = cbs" for cbs
    by (induction cbs) auto
  obtain cbs w2 where b: "begin_pass w = (cbs, w2)" by (cases "begin_pass w")
  then have f: "\<not> triggerPending w2" "marks w2 = marks w @ [BeginInvokeStoreCallbacks]"
    "calls w2 = calls w"
    by (auto simp: begin_pass_eq)
  show ?thesis using assms f
    by (simp add: resolve_pass_def b invoke_quiet end_pass_def passes_def invoked_of_append i)
qed

text \<open>C8: at most one resolver pass executes at any time. While \<open>isTriggering\<close> is set, a
  call of the resolver only sets \<open>triggerPending\<close> and returns. A pass that is entered
  writes its begin mark, no mark is written while its callbacks run (no pass is entered
  inside it), and when it has completed, the resolver is called once more exactly when
  \<open>triggerPending\<close> was set during the pass. The marks of a whole call of the resolver are
  those of one or more passes that ran one after the other.\<close>

theorem one_resolver_pass_at_a_time:
  "(isTriggering w \<longrightarrow> resolveCallbacks beh n w = Ok (w\<lparr>triggerPending := True\<rparr>))
   \<and> (\<not> isTriggering w \<and> begin_pass w = (cbs, w2)
        \<and> invoke_callbacks beh (resolveCallbacks beh n) cbs w2 = Ok w3 \<longrightarrow>
          isTriggering w3 \<and> marks w3 = marks w @ [BeginInvokeStoreCallbacks]
          \<and> \<not> isTriggering (end_pass w3)
          \<and> marks (end_pass w3) = marks w @ passes 1
          \<and> resolveCallbacks beh (Suc n) w =
               (if triggerPending w3 then resolveCallbacks beh n (end_pass w3)
                else Ok (end_pass w3)))
   \<and> (\<not> isTriggering w \<and> resolveCallbacks beh n w = Ok w' \<longrightarrow>
          (\<exists>k. marks w' = marks w @ passes (Suc k)) \<and> \<not> isTriggering w' \<and> \<not> triggerPending w')"
proof (intro conjI impI)
  assume "isTriggering w"
  then show "resolveCallbacks beh n w = Ok (w\<lparr>triggerPending := True\<rparr>)" by (rule resolve_guard)
next
  assume a: "\<not> isTriggering w \<and> begin_pass w = (cbs, w2)
        \<and> invoke_callbacks beh (resolveCallbacks beh n) cbs w2 = Ok w3"
  then have b: "begin_pass w = (cbs, w2)"
    and i: "invoke_callbacks beh (resolveCallbacks beh n) cbs w2 = Ok w3" by simp_all
  from begin_pass_fields[OF b] have t2: "isTriggering w2"
    and m2: "marks w2 = marks w @ [BeginInvokeStoreCallbacks]" by simp_all
  from invoke_callbacks_in_pass[OF t2 i] have t3: "isTriggering w3" and m3: "marks w3 = marks w2"
    by simp_all
  show "isTriggering w3" by (rule t3)
  show "marks w3 = marks w @ [BeginInvokeStoreCallbacks]" by (simp add: m3 m2)
  show "\<not> isTriggering (end_pass w3)" by (simp add: end_pass_def)
  show "marks (end_pass w3) = marks w @ passes 1" by (simp add: end_pass_def m3 m2 passes_def)
  show "resolveCallbacks beh (Suc n) w =
               (if triggerPending w3 then resolveCallbacks beh n (end_pass w3)
                else Ok (end_pass w3))"
    using a by (simp add: resolve_pass_def Let_def end_pass_def)
next
  assume "\<not> isTriggering w \<and> resolveCallbacks beh n w = Ok w'"
  then have r: "(\<exists>k. marks w' = marks w @ passes (Suc k)) \<and> \<not> isTriggering w' \<and> \<not> triggerPending w'"
    using passes_in_sequence by blast
  from r show "\<exists>k. marks w' = marks w @ passes (Suc k)" by blast
  from r show "\<not> isTriggering w'" by blast
  from r show "\<not> triggerPending w'" by blast
qed

theorem one_resolver_pass_at_a_time_witness:
  "resolveCallbacks chain_beh 0 (chain_world\<lparr>isTriggering := True\<rparr>)
     = Ok (chain_world\<lparr>isTriggering := True, triggerPending := True\<rparr>)
   \<and> \<not> isTriggering chain_world
   \<and> map_result (\<lambda>w3. (triggerPending w3, marks (end_pass w3)))
       (invoke_callbacks chain_beh (resolveCallbacks chain_beh 1) (fst (begin_pass chain_world))
          (snd (begin_pass chain_world))) = Ok (True, passes 1)
   \<and> map_result (\<lambda>w. (marks w, isTriggering w, invoked_of (calls w)))
       (resolveCallbacks chain_beh 2 chain_world)
       = Ok (passes 2, False, [(1, Some [''a'']), (2, Some [''b''])])"
proof -
  let ?t = "chain_world\<lparr>isTriggering := True\<rparr>"
  have g: "resolveCallbacks chain_beh 0 ?t = Ok (?t\<lparr>triggerPending := True\<rparr>)"
    using one_resolver_pass_at_a_time [of ?t chain_beh 0] by simp
  have n: "\<not> isTriggering chain_world" by code_simp
  have b: "begin_pass chain_world = (fst (begin_pass chain_world), snd (begin_pass chain_world))"
    by simp
  have m0: "marks chain_world = []" by code_simp
  have i: "map_result triggerPending
       (invoke_callbacks chain_beh (resolveCallbacks chain_beh 1) (fst (begin_pass chain_world))
          (snd (begin_pass chain_world))) = Ok True" by code_simp
  then obtain w3 where w3: "invoke_callbacks chain_beh (resolveCallbacks chain_beh 1)
      (fst (begin_pass chain_world)) (snd (begin_pass chain_world)) = Ok w3"
    and p3: "triggerPending w3" by (auto simp: map_result_Ok)
  from one_resolver_pass_at_a_time [of chain_world chain_beh 1 "fst (begin_pass chain_world)"
      "snd (begin_pass chain_world)" w3] n b w3
  have e3: "marks (end_pass w3) = passes 1" by (simp add: m0)
  have r: "map_result (\<lambda>w. (marks w, invoked_of (calls w))) (resolveCallbacks chain_beh 2 chain_world)
       = Ok (passes 2, [(1, Some [''a'']), (2, Some [''b''])])" by code_simp
  then obtain w' where w': "resolveCallbacks chain_beh 2 chain_world = Ok w'"
    and mw: "marks w' = passes 2" and iw: "invoked_of (calls w') = [(1, Some [''a'']), (2, Some [''b''])]"
    by (auto simp: map_result_Ok)
  from one_resolver_pass_at_a_time [of chain_world chain_beh 2 _ _ _ w'] n w'
  have "\<not> isTriggering w'" by simp
  with g n w3 p3 e3 w' mw iw show ?thesis by simp
qed

subsection \<open>The all-keys entry\<close>

lemma setupSpecific_keeps_all:
  assumes "pending_all p cb"
  shows "pending_all (setupSpecificKeySubscription ks cb' u b p) cb"
proof (cases "cb' = cb")
  case True
  with assms show ?thesis
    by (auto simp: pending_all_def map_of_setupSpecific_same keys_updateExistingMeta
        split: option.splits)
next
  case False
  with assms show ?thesis by (simp add: pending_all_def map_of_setupSpecific_other)
qed

lemma fold_setupSpecific_keeps_all:
  "pending_all p cb \<Longrightarrow>
     pending_all (fold (\<lambda>x. setupSpecificKeySubscription ks (f x) u b) xs p) cb"
  by (induction xs arbitrary: p) (simp_all add: setupSpecific_keeps_all)

lemma register_key_keeps_all:
  "pending_all p cb \<Longrightarrow> pending_all (register_key this u b k p) cb"
  unfolding register_key_def Let_def
  by (intro fold_setupSpecific_keeps_all[where f = "\<lambda>x. x"]
        fold_setupSpecific_keeps_all[where f = as_callback])

lemma fold_register_key_keeps_all:
  "pending_all p cb \<Longrightarrow> pending_all (fold (register_key this u b) ks p) cb"
  by (induction ks arbitrary: p) (simp_all add: register_key_keeps_all)

lemma register_keys_keeps_all:
  "pending_all p cb \<Longrightarrow> pending_all (register_keys this u b ks p) cb"
  unfolding register_keys_def Let_def
  by (intro fold_setupSpecific_keeps_all[where f = "\<lambda>x. x"]
        fold_setupSpecific_keeps_all[where f = as_callback] fold_register_key_keeps_all)

lemma setupAll_makes_all: "pending_all (setupAllKeySubscription cb u b p) cb"
  by (simp add: pending_all_def map_of_setupAll_same)

lemma capture_subset:
  "capture bc bt t p = (cs, kept) \<Longrightarrow> (cb, arg) \<in> set cs \<Longrightarrow>
     \<exists>m. (cb, m) \<in> set p \<and> arg = map_option uniq (keys m)"
proof (induction p arbitrary: cs kept)
  case Nil
  then show ?case by simp
next
  case (Cons e p)
  obtain c m where e: "e = (c, m)" by (cases e)
  obtain cs' kept' where r: "capture bc bt t p = (cs', kept')" by (cases "capture bc bt t p")
  from Cons.prems(1) have "cs = cs' \<or> cs = (c, map_option uniq (keys m)) # cs'"
    by (auto simp: e r split: if_splits)
  with Cons.prems(2) have "(cb, arg) \<in> set cs' \<or> (cb, arg) = (c, map_option uniq (keys m))"
    by auto
  then show ?case
  proof
    assume "(cb, arg) \<in> set cs'"
    from Cons.IH[OF r this] show ?thesis by auto
  next
    assume "(cb, arg) = (c, map_option uniq (keys m))"
    then show ?thesis by (auto simp: e)
  qed
qed

lemma start_throttle_pending: "start_throttle sid w = (w1, u) \<Longrightarrow> pendingCallbacks w1 = pendingCallbacks w"
  by (auto simp: start_throttle_def Options_setTimeout_def update_store_def Let_def split: if_splits option.splits)

subsection \<open>The coalescing timer\<close>

lemma start_throttle_timer:
  assumes "truthy (effective_throttleMs (stores w sid) w)" and "throttleData (stores w sid) = None"
    and "start_throttle sid w = (w1, u)"
  shows "timeouts w1 = timeouts w @ [(sid, throttleMs (stores w sid))]"
    and "u = Some (int (now w) + the (effective_throttleMs (stores w sid) w))"
    and "map_option callbackTime (throttleData (stores w1 sid)) = u"
  using assms by (auto simp: start_throttle_def Options_setTimeout_def update_store_def Let_def)

lemma start_throttle_own_delay:
  assumes "throttleMs (stores w sid) = Some d" and "d \<noteq> 0"
    and "throttleData (stores w sid) = None"
  shows "timeouts (fst (start_throttle sid w)) = timeouts w @ [(sid, Some d)]
       \<and> snd (start_throttle sid w) = Some (int (now w) + d)"
  using assms by (auto simp: start_throttle_def Options_setTimeout_def update_store_def Let_def effective_throttleMs_def)

text \<open>C3: with an effective delay and no timer running, trigger starts a timer whose duration
  is the effective delay and records its fire time as the due-time. The timer is started
  with \<^verbatim>\<open>this._throttleMs\<close>, the delay of the store itself: for a store without one, under
  a default delay of 100 ms, \<^verbatim>\<open>Options.setTimeout\<close> is called with no delay at all, while
  the due-time recorded is \<open>now + 100\<close>. When that timer fires (at once), the pass it runs
  finds the entry throttled and leaves it in the table, with no timer left to deliver it.\<close>

theorem default_delay_timer_gets_no_duration:
  "effective_throttleMs (stores default_delay_world 0) default_delay_world = Some 100
   \<and> throttleData (stores default_delay_world 0) = None
   \<and> timeouts (fst (start_throttle 0 default_delay_world)) = [(0, None)]
   \<and> snd (start_throttle 0 default_delay_world) = Some 1100
   \<and> map_result (\<lambda>w. (timeouts w, pendingCallbacks w))
       (exec_ops (resolveCallbacks quiet 2)
          [OpSubscribe 0 1 (Some (Str ''a'')), OpTrigger 0 (One (Str ''a''))] default_delay_world)
     = Ok ([(0, None)],
           [(1, \<lparr>keys = Some [''a''], throttledUntil = Some 1100, bypassBlock = False\<rparr>)])
   \<and> map_result (\<lambda>w. (invoked_of (calls w), map fst (pendingCallbacks w),
                       throttleData (stores w 0)))
       (bind (exec_ops (resolveCallbacks quiet 2)
                [OpSubscribe 0 1 (Some (Str ''a'')), OpTrigger 0 (One (Str ''a''))]
                default_delay_world)
          (handleThrottledCallbacks (resolveCallbacks quiet 2) 0))
     = Ok ([], [1], None)"
  by code_simp

subsection \<open>Invariants kept by the resolver\<close>

lemma preservesD: "preserves P f \<Longrightarrow> P w \<Longrightarrow> f w = Ok w' \<Longrightarrow> P w'"
  by (auto simp: preserves_def)

lemma preserves_exec_ops:
  assumes op: "\<And>x. preserves P (exec_op R x)"
    and upd: "\<And>w c. P w \<Longrightarrow> P (w\<lparr>calls := calls w @ [c]\<rparr>)"
  shows "preserves P (exec_ops R xs)"
  unfolding preserves_def
proof (intro allI impI, elim conjE)
  fix w w' assume "P w" "exec_ops R xs w = Ok w'"
  then show "P w'"
  proof (induction xs arbitrary: w)
    case Nil
    then show ?case by simp
  next
    case (Cons x xs)
    from Cons.prems(2) obtain w1 where
      1: "exec_op R x (w\<lparr>calls := calls w @ [Issued x]\<rparr>) = Ok w1" and
      2: "exec_ops R xs w1 = Ok w'"
      by (auto simp: bind_Ok)
    have "P w1" using preservesD[OF op upd[OF Cons.prems(1)] 1] .
    then show ?case using Cons.IH 2 by blast
  qed
qed

lemma preserves_invoke_callbacks:
  assumes op: "\<And>x. preserves P (exec_op R x)"
    and upd: "\<And>w c. P w \<Longrightarrow> P (w\<lparr>calls := calls w @ [c]\<rparr>)"
  shows "preserves P (invoke_callbacks beh R cbs)"
  unfolding preserves_def
proof (intro allI impI, elim conjE)
  fix w w' assume "P w" "invoke_callbacks beh R cbs w = Ok w'"
  then show "P w'"
  proof (induction cbs arbitrary: w)
    case Nil
    then show ?case by simp
  next
    case (Cons c cbs)
    obtain cb ks where c: "c = (cb, ks)" by (cases c)
    from Cons.prems(2) c obtain w1 where
      1: "exec_ops R (beh cb ks w) (w\<lparr>calls := calls w @ [Invoked cb ks]\<rparr>) = Ok w1" and
      2: "invoke_callbacks beh R cbs w1 = Ok w'"
      by (auto simp: bind_Ok)
    have "P w1" using preservesD[OF preserves_exec_ops[OF op upd] upd[OF Cons.prems(1)] 1] .
    then show ?case using Cons.IH 2 by blast
  qed
qed

text \<open>An invariant of the state that every call of the interface keeps, whatever the
  resolver it is given keeps it too, is kept by the resolver.\<close>

lemma preserves_resolveCallbacks:
  assumes op: "\<And>R x. preserves P R \<Longrightarrow> preserves P (exec_op R x)"
    and upd: "\<And>w c. P w \<Longrightarrow> P (w\<lparr>calls := calls w @ [c]\<rparr>)"
    and tp: "\<And>w. P w \<Longrightarrow> P (w\<lparr>triggerPending := True\<rparr>)"
    and bp: "\<And>w. P w \<Longrightarrow> P (snd (begin_pass w))"
    and ep: "\<And>w. P w \<Longrightarrow> P (end_pass w)"
  shows "preserves P (resolveCallbacks beh n)"
proof (induction n)
  case 0
  show ?case by (auto simp: preserves_def tp split: if_splits)
next
  case (Suc n)
  show ?case unfolding preserves_def
  proof (intro allI impI, elim conjE)
    fix w w' assume P: "P w" and r: "resolveCallbacks beh (Suc n) w = Ok w'"
    show "P w'"
    proof (cases "isTriggering w")
      case True
      with r P show ?thesis by (auto simp: tp)
    next
      case False
      with r have "resolve_pass beh (resolveCallbacks beh n) w = Ok w'" by simp
      then obtain w3 where i: "invoke_callbacks beh (resolveCallbacks beh n) (fst (begin_pass w))
            (snd (begin_pass w)) = Ok w3"
        and f: "(if triggerPending (end_pass w3) then resolveCallbacks beh n (end_pass w3)
                 else Ok (end_pass w3)) = Ok w'"
        by (auto simp: resolve_pass_def bind_Ok Let_def split: prod.splits)
      have "preserves P (invoke_callbacks beh (resolveCallbacks beh n) (fst (begin_pass w)))"
        by (rule preserves_invoke_callbacks[OF op[OF Suc.IH] upd])
      from preservesD[OF this bp[OF P] i] have "P (end_pass w3)" by (rule ep)
      with f Suc.IH show ?thesis by (auto simp: preserves_def split: if_splits)
    qed
  qed
qed

lemma start_throttle_count:
  "start_throttle sid w = (w1, u) \<Longrightarrow> triggerBlockCount w1 = triggerBlockCount w"
  by (auto simp: start_throttle_def Options_setTimeout_def update_store_def Let_def split: if_splits option.splits)

lemma count_exec_op:
  assumes "preserves (\<lambda>w. 0 \<le> triggerBlockCount w) R"
  shows "preserves (\<lambda>w. 0 \<le> triggerBlockCount w) (exec_op R x)"
  unfolding preserves_def
proof (intro allI impI, elim conjE)
  fix w w' assume P: "0 \<le> triggerBlockCount w" and e: "exec_op R x w = Ok w'"
  note R = preservesD[OF assms]
  show "0 \<le> triggerBlockCount w'"
  proof (cases x)
    case (OpTrigger sid a)
    obtain w1 u where st: "start_throttle sid w = (w1, u)" by (cases "start_throttle sid w")
    from e OpTrigger P start_throttle_count[OF st] show ?thesis
      by (auto simp: trigger_def st Let_def split: if_splits dest!: R[rotated])
  next
    case (OpSubscribe sid cb k)
    with e P show ?thesis
      by (auto simp: bind_Ok subscribe_def update_store_def Let_def split: if_splits option.splits)
  next
    case (OpUnsubscribe sid t)
    with e P show ?thesis
      by (auto simp: unsubscribe_def update_store_def Let_def
          split: if_splits option.splits prod.splits)
  next
    case (OpTrackAutoSubscription sid a)
    with e P show ?thesis
      by (auto simp: trackAutoSubscription_def update_store_def Let_def
          split: if_splits option.splits)
  next
    case (OpRemoveAutoSubscription sid a)
    with e P show ?thesis
      by (auto simp: removeAutoSubscription_def update_store_def Let_def
          split: if_splits option.splits)
  next
    case (OpPushTriggerBlock c)
    with e P show ?thesis
      by (auto simp: pushTriggerBlock_def shared_triggerBlockCount)
  next
    case (OpPopTriggerBlock c)
    let ?w1 = "set_triggerBlockCount c (get_triggerBlockCount c w - 1) w"
    from e OpPopTriggerBlock have g: "0 \<le> get_triggerBlockCount c ?w1"
      and r: "R ?w1 = Ok w' \<or> w' = ?w1"
      by (auto simp: popTriggerBlock_def Let_def split: if_splits)
    from g have "0 \<le> get_triggerBlockCount c w - 1" by (simp add: shared_triggerBlockCount)
    with P have "0 \<le> triggerBlockCount ?w1"
      by (cases "c = []") (simp_all add: shared_triggerBlockCount)
    with r show ?thesis using R by auto
  next
    case (OpSetThrottleStatus c b)
    with e have "R (set_bypassThrottle c (\<not> b) w) = Ok w'" by (simp add: setThrottleStatus_def)
    moreover have "0 \<le> triggerBlockCount (set_bypassThrottle c (\<not> b) w)"
      using P by (simp add: set_static_frame)
    ultimately show ?thesis using R by auto
  qed
qed

lemma count_resolveCallbacks:
  "preserves (\<lambda>w. 0 \<le> triggerBlockCount w) (resolveCallbacks beh n)"
  by (rule preserves_resolveCallbacks) (simp_all add: count_exec_op begin_pass_eq end_pass_def)

subsection \<open>What a pass calls\<close>

text \<open>A call of the interface either hands the state to the resolver, with the trace as it
  was, or returns with the trace as it was.\<close>

lemma exec_op_calls:
  assumes "exec_op R x w = Ok w'"
  shows "(\<exists>v. calls v = calls w \<and> R v = Ok w') \<or> calls w' = calls w"
proof (cases x)
  case (OpTrigger sid a)
  obtain w1 u where st: "start_throttle sid w = (w1, u)" by (cases "start_throttle sid w")
  then have c1: "calls w1 = calls w" using start_throttle_same by (simp add: same_pass_def)
  from assms OpTrigger obtain p where "R (w1\<lparr>pendingCallbacks := p\<rparr>) = Ok w'
      \<or> w' = w1\<lparr>pendingCallbacks := p\<rparr>"
    by (auto simp: trigger_def st Let_def split: if_splits)
  moreover have "calls (w1\<lparr>pendingCallbacks := p\<rparr>) = calls w" by (simp add: c1)
  ultimately show ?thesis by (metis (no_types))
next
  case (OpSubscribe sid cb k)
  with assms obtain t where "subscribe sid cb k w = Ok (t, w')"
    by (cases "subscribe sid cb k w") auto
  then show ?thesis using subscribe_same by (simp add: same_pass_def)
next
  case (OpUnsubscribe sid t)
  with assms show ?thesis using unsubscribe_same by (simp add: same_pass_def)
next
  case (OpTrackAutoSubscription sid a)
  with assms show ?thesis using track_same by (simp add: same_pass_def)
next
  case (OpRemoveAutoSubscription sid a)
  with assms show ?thesis using remove_same by (simp add: same_pass_def)
next
  case (OpPushTriggerBlock c)
  with assms show ?thesis by (auto simp: pushTriggerBlock_def set_static_frame)
next
  case (OpPopTriggerBlock c)
  let ?w1 = "set_triggerBlockCount c (get_triggerBlockCount c w - 1) w"
  from assms OpPopTriggerBlock have "R ?w1 = Ok w' \<or> w' = ?w1"
    by (auto simp: popTriggerBlock_def Let_def split: if_splits)
  moreover have "calls ?w1 = calls w" by (simp add: set_static_frame)
  ultimately show ?thesis by (metis (no_types))
next
  case (OpSetThrottleStatus c b)
  with assms have "R (set_bypassThrottle c (\<not> b) w) = Ok w'" by (simp add: setThrottleStatus_def)
  moreover have "calls (set_bypassThrottle c (\<not> b) w) = calls w" by (simp add: set_static_frame)
  ultimately show ?thesis by (metis (no_types))
qed

lemma invoked_from_exec_op:
  assumes "preserves (invoked_from base) R"
  shows "preserves (invoked_from base) (exec_op R x)"
  unfolding preserves_def
proof (intro allI impI, elim conjE)
  fix w w' assume P: "invoked_from base w" and e: "exec_op R x w = Ok w'"
  from exec_op_calls[OF e] show "invoked_from base w'"
  proof
    assume "\<exists>v. calls v = calls w \<and> R v = Ok w'"
    then obtain v where v: "calls v = calls w" and r: "R v = Ok w'" by blast
    from P v have "invoked_from base v" by (simp add: invoked_from_def)
    with r show ?thesis using preservesD[OF assms] by blast
  next
    assume "calls w' = calls w"
    with P show ?thesis by (simp add: invoked_from_def)
  qed
qed

lemma invoked_from_resolveCallbacks: "preserves (invoked_from base) (resolveCallbacks beh n)"
proof (rule preserves_resolveCallbacks)
  show "preserves (invoked_from base) (exec_op R x)" if "preserves (invoked_from base) R" for R x
    using that by (rule invoked_from_exec_op)
  show "invoked_from base (w\<lparr>calls := calls w @ [c]\<rparr>)" if "invoked_from base w" for w c
    using that by (auto simp: invoked_from_def invoked_of_append)
qed (simp_all add: invoked_from_def begin_pass_eq end_pass_def)

text \<open>A call of the resolver only adds to the trace of invocations.\<close>

lemma resolveCallbacks_extends:
  assumes "resolveCallbacks beh n v = Ok v'"
  shows "\<exists>ext. invoked_of (calls v') = invoked_of (calls v) @ ext"
proof -
  have "invoked_from (invoked_of (calls v)) v" by (simp add: invoked_from_def)
  from preservesD[OF invoked_from_resolveCallbacks this assms] show ?thesis
    by (simp add: invoked_from_def)
qed

lemma resolve_pass_unfold:
  assumes "begin_pass w = (cbs, w2)"
  shows "resolve_pass beh R w =
     bind (invoke_callbacks beh R cbs w2)
       (\<lambda>w3. if triggerPending w3 then R (end_pass w3) else Ok (end_pass w3))"
proof -
  have "triggerPending (end_pass v) = triggerPending v" for v by (simp add: end_pass_def)
  then show ?thesis by (simp add: resolve_pass_def assms Let_def)
qed

text \<open>The invocations of a call of the pass begin with the callbacks it captured.\<close>

lemma first_pass_invocations:
  assumes "resolve_pass beh (resolveCallbacks beh n) w = Ok w'"
  shows "\<exists>rest. invoked_of (calls w') = invoked_of (calls w) @ fst (begin_pass w) @ rest"
proof -
  from assms obtain cbs w2 w3 where b: "begin_pass w = (cbs, w2)"
    and i: "invoke_callbacks beh (resolveCallbacks beh n) cbs w2 = Ok w3"
    and r: "(if triggerPending (end_pass w3) then resolveCallbacks beh n (end_pass w3)
          else Ok (end_pass w3)) = Ok w'"
    by (rule resolve_pass_Ok)
  have t2: "isTriggering w2" and c2: "calls w2 = calls w"
    using b by (auto simp: begin_pass_eq)
  from invoke_callbacks_in_pass[OF t2 i] c2
  have i3: "invoked_of (calls (end_pass w3)) = invoked_of (calls w) @ cbs"
    by (simp add: end_pass_def)
  show ?thesis
  proof (cases "triggerPending (end_pass w3)")
    case True
    with r have "resolveCallbacks beh n (end_pass w3) = Ok w'" by simp
    from resolveCallbacks_extends[OF this] i3 b show ?thesis by auto
  next
    case False
    with r have "w' = end_pass w3" by simp
    with i3 b show ?thesis by simp
  qed
qed

text \<open>C1: a resolver pass delivers exactly the entries that pass both gates. An entry is
  skipped, and stays in the table, when the block counter is positive and its bypass flag
  is false, or when its due-time is strictly in the future and the throttle-bypass flag is
  false. Every delivered entry leaves the table. The pass of \<^verbatim>\<open>_resolveCallbacks\<close> is the
  invocation of the captured list on the state without the delivered entries, followed by
  the end of the pass and, when a trigger came in meanwhile, by the next pass; outside a
  pass the resolver runs this pass. The invocation calls the captured callbacks, each
  exactly once (the callbacks of the table are distinct, and the invocations are the
  captured list, in order), each with its deduplicated key list, or with no argument for the
  all-keys entry, and never runs out of fuel; whenever the resolver returns, the
  invocations it made start with the captured list.\<close>

theorem resolver_pass_delivers_eligible:
  assumes "distinct (map fst (pendingCallbacks w))"
    and "begin_pass w = (callbacks, w2)"
  shows "callbacks = map delivery (filter (passes_gates w) (pendingCallbacks w))
       \<and> pendingCallbacks w2 = filter (\<lambda>e. \<not> passes_gates w e) (pendingCallbacks w)
       \<and> distinct (map fst callbacks)
       \<and> (\<forall>cb ks. (cb, Some ks) \<in> set callbacks \<longrightarrow> distinct ks)
       \<and> resolve_pass beh (resolveCallbacks beh n) w =
            bind (invoke_callbacks beh (resolveCallbacks beh n) callbacks w2)
              (\<lambda>w3. if triggerPending w3 then resolveCallbacks beh n (end_pass w3)
                     else Ok (end_pass w3))
       \<and> (\<not> isTriggering w \<longrightarrow>
            resolveCallbacks beh (Suc n) w = resolve_pass beh (resolveCallbacks beh n) w)
       \<and> invoke_callbacks beh (resolveCallbacks beh n) callbacks w2 \<noteq> OutOfFuel
       \<and> (\<forall>w3. invoke_callbacks beh (resolveCallbacks beh n) callbacks w2 = Ok w3 \<longrightarrow>
             invoked_of (calls w3) = invoked_of (calls w) @ callbacks)
       \<and> (\<forall>w'. resolve_pass beh (resolveCallbacks beh n) w = Ok w' \<longrightarrow>
             (\<exists>rest. invoked_of (calls w') = invoked_of (calls w) @ callbacks @ rest))"
proof -
  from assms(2) have cb: "callbacks = map delivery (filter (passes_gates w) (pendingCallbacks w))"
    and w2: "w2 = w\<lparr>isTriggering := True, triggerPending := False,
        marks := marks w @ [BeginInvokeStoreCallbacks],
        pendingCallbacks := filter (\<lambda>e. \<not> passes_gates w e) (pendingCallbacks w)\<rparr>"
    by (simp_all add: begin_pass_eq)
  have k: "pendingCallbacks w2 = filter (\<lambda>e. \<not> passes_gates w e) (pendingCallbacks w)"
    by (simp add: w2)
  have t: "isTriggering w2" by (simp add: w2)
  have c: "calls w2 = calls w" by (simp add: w2)
  have d: "distinct (map fst callbacks)"
    unfolding cb using assms(1) by (rule distinct_deliveries)
  have u: "\<forall>c ks. (c, Some ks) \<in> set callbacks \<longrightarrow> distinct ks"
    unfolding cb using delivery_deduplicated by blast
  have p: "resolve_pass beh (resolveCallbacks beh n) w =
            bind (invoke_callbacks beh (resolveCallbacks beh n) callbacks w2)
              (\<lambda>w3. if triggerPending w3 then resolveCallbacks beh n (end_pass w3)
                     else Ok (end_pass w3))"
    using assms(2) by (rule resolve_pass_unfold)
  have g: "\<not> isTriggering w \<longrightarrow>
            resolveCallbacks beh (Suc n) w = resolve_pass beh (resolveCallbacks beh n) w"
    by simp
  have f: "invoke_callbacks beh (resolveCallbacks beh n) callbacks w2 \<noteq> OutOfFuel"
    using t by (rule invoke_callbacks_fuel)
  have i: "\<forall>w3. invoke_callbacks beh (resolveCallbacks beh n) callbacks w2 = Ok w3 \<longrightarrow>
             invoked_of (calls w3) = invoked_of (calls w) @ callbacks"
    using invoke_callbacks_in_pass[OF t] c by auto
  have r: "\<forall>w'. resolve_pass beh (resolveCallbacks beh n) w = Ok w' \<longrightarrow>
             (\<exists>rest. invoked_of (calls w') = invoked_of (calls w) @ callbacks @ rest)"
    using first_pass_invocations[of beh n w] assms(2) by auto
  from cb k d u p g f i r show ?thesis by (intro conjI)
qed

theorem resolver_pass_delivers_eligible_witness:
  "distinct (map fst (pendingCallbacks gate_world))
   \<and> fst (begin_pass gate_world) = [(1, Some [''a'', ''b'']), (4, None)]
   \<and> map fst (pendingCallbacks (snd (begin_pass gate_world))) = [2, 3]
   \<and> map_result (\<lambda>w3. invoked_of (calls w3))
        (invoke_callbacks quiet (resolveCallbacks quiet 0) (fst (begin_pass gate_world))
           (snd (begin_pass gate_world))) = Ok [(1, Some [''a'', ''b'']), (4, None)]
   \<and> map_result (\<lambda>w'. (invoked_of (calls w'), map fst (pendingCallbacks w')))
        (resolveCallbacks quiet (Suc 0) gate_world)
        = Ok ([(1, Some [''a'', ''b'']), (4, None)], [2, 3])
   \<and> map_result (\<lambda>w'. \<exists>rest. invoked_of (calls w') = fst (begin_pass gate_world) @ rest)
        (resolveCallbacks quiet (Suc 0) gate_world) = Ok True"
proof -
  let ?cbs = "fst (begin_pass gate_world)" and ?w2 = "snd (begin_pass gate_world)"
  have d: "distinct (map fst (pendingCallbacks gate_world))" by code_simp
  have b: "begin_pass gate_world = (?cbs, ?w2)" by simp
  have e: "map delivery (filter (passes_gates gate_world) (pendingCallbacks gate_world))
      = [(1, Some [''a'', ''b'']), (4, None)]" by code_simp
  have k: "map fst (filter (\<lambda>e. \<not> passes_gates gate_world e) (pendingCallbacks gate_world))
      = [2, 3]" by code_simp
  have c0: "invoked_of (calls gate_world) = []" by code_simp
  have nt: "\<not> isTriggering gate_world" by code_simp
  note t = resolver_pass_delivers_eligible [OF d b, of quiet 0]
  have 1: "?cbs = [(1, Some [''a'', ''b'']), (4, None)]"
    using t [THEN conjunct1] e by (simp only:)
  have 2: "map fst (pendingCallbacks ?w2) = [2, 3]"
    using t [THEN conjunct2, THEN conjunct1] k by (simp only:)
  have "map_result (\<lambda>w3. True)
        (invoke_callbacks quiet (resolveCallbacks quiet 0) ?cbs ?w2) = Ok True" by code_simp
  then obtain w3 where w3: "invoke_callbacks quiet (resolveCallbacks quiet 0) ?cbs ?w2 = Ok w3"
    by (auto simp: map_result_Ok)
  have "invoked_of (calls w3) = invoked_of (calls gate_world) @ ?cbs"
    using t w3 by blast
  then have 3: "map_result (\<lambda>w3. invoked_of (calls w3))
        (invoke_callbacks quiet (resolveCallbacks quiet 0) ?cbs ?w2)
        = Ok [(1, Some [''a'', ''b'']), (4, None)]"
    unfolding w3 by (simp add: c0 1)
  have 4: "map_result (\<lambda>w'. (invoked_of (calls w'), map fst (pendingCallbacks w')))
        (resolveCallbacks quiet (Suc 0) gate_world)
        = Ok ([(1, Some [''a'', ''b'']), (4, None)], [2, 3])" by code_simp
  then obtain w' where w': "resolveCallbacks quiet (Suc 0) gate_world = Ok w'"
    by (auto simp: map_result_Ok)
  have "resolveCallbacks quiet (Suc 0) gate_world
      = resolve_pass quiet (resolveCallbacks quiet 0) gate_world"
    using t nt by blast
  with w' have "resolve_pass quiet (resolveCallbacks quiet 0) gate_world = Ok w'" by simp
  with t have "\<exists>rest. invoked_of (calls w') = invoked_of (calls gate_world) @ ?cbs @ rest"
    by blast
  then have 5: "map_result (\<lambda>w'. \<exists>rest. invoked_of (calls w') = ?cbs @ rest)
        (resolveCallbacks quiet (Suc 0) gate_world) = Ok True"
    unfolding w' by (simp add: c0)
  from d 1 2 3 4 5 show ?thesis by (intro conjI)
qed

subsection \<open>The all-keys entry reaches the callback\<close>

lemma passing_entry_captured:
  assumes "map_of (pendingCallbacks w) cb = Some m" and "passes_gates w (cb, m)"
  shows "(cb, map_option uniq (keys m)) \<in> set (fst (begin_pass w))"
proof -
  from assms(1) have "(cb, m) \<in> set (pendingCallbacks w)" by (rule map_of_SomeD)
  with assms(2) have "delivery (cb, m) \<in> set (fst (begin_pass w))"
    by (simp add: begin_pass_eq)
  moreover have "delivery (cb, m) = (cb, map_option uniq (keys m))"
    by (simp add: delivery_def split: option.splits)
  ultimately show ?thesis by simp
qed

text \<open>C5: a specific-key trigger cannot narrow a pending all-keys entry. When a callback has
  a pending all-keys entry, \<^verbatim>\<open>_setupSpecificKeySubscription\<close> for it leaves the entry
  all-keys; the table that a whole specific-keys \<^verbatim>\<open>trigger\<close> of any store hands to the
  resolver (or leaves, when the trigger is throttled) still has the entry all-keys, with
  the trace as it was. A pass that captures the callback captures it with no argument, a
  pass captures it when its entry passes the gates, and the invocation calls what was
  captured: whenever the resolver, started outside a pass on an entry that passes the
  gates, returns, the first call of the callback that it made is a call with no
  argument.\<close>

theorem all_keys_entry_is_sticky:
  assumes "pending_all (pendingCallbacks w) cb" and "distinct (map fst (pendingCallbacks w))"
  shows "pending_all (setupSpecificKeySubscription ks cb u b (pendingCallbacks w)) cb
       \<and> (\<not> all_keys_branch a \<longrightarrow>
            (\<exists>w2. pending_all (pendingCallbacks w2) cb
               \<and> distinct (map fst (pendingCallbacks w2))
               \<and> same_pass w w2
               \<and> (trigger R sid a w = R w2 \<or> trigger R sid a w = Ok w2)))
       \<and> (\<forall>arg. (cb, arg) \<in> set (fst (begin_pass w)) \<longrightarrow> arg = None)
       \<and> (\<forall>m. map_of (pendingCallbacks w) cb = Some m \<and> passes_gates w (cb, m) \<longrightarrow>
            (cb, None) \<in> set (fst (begin_pass w)))
       \<and> (\<forall>w3. invoke_callbacks beh (resolveCallbacks beh n) (fst (begin_pass w))
                  (snd (begin_pass w)) = Ok w3 \<longrightarrow>
            invoked_of (calls w3) = invoked_of (calls w) @ fst (begin_pass w))
       \<and> (\<forall>m w'. \<not> isTriggering w \<and> map_of (pendingCallbacks w) cb = Some m
                  \<and> passes_gates w (cb, m) \<and> resolveCallbacks beh (Suc n) w = Ok w' \<longrightarrow>
            (\<exists>pre rest. invoked_of (calls w') = invoked_of (calls w) @ pre @ (cb, None) # rest
                \<and> cb \<notin> fst ` set pre))"
proof -
  have 1: "pending_all (setupSpecificKeySubscription ks cb u b (pendingCallbacks w)) cb"
    using assms(1) by (rule setupSpecific_keeps_all)
  have 2: "\<not> all_keys_branch a \<longrightarrow>
            (\<exists>w2. pending_all (pendingCallbacks w2) cb
               \<and> distinct (map fst (pendingCallbacks w2))
               \<and> same_pass w w2
               \<and> (trigger R sid a w = R w2 \<or> trigger R sid a w = Ok w2))"
  proof
    assume na: "\<not> all_keys_branch a"
    obtain w1 un where st: "start_throttle sid w = (w1, un)" by (cases "start_throttle sid w")
    let ?p = "register_keys (stores w1 sid) un (bypassTriggerBlocks (stores w1 sid))
                (trigger_keys a) (pendingCallbacks w1)"
    let ?w2 = "w1\<lparr>pendingCallbacks := ?p\<rparr>"
    have p1: "pendingCallbacks w1 = pendingCallbacks w" using st by (rule start_throttle_pending)
    have "pending_all (pendingCallbacks w1) cb" using assms(1) p1 by simp
    then have a: "pending_all (pendingCallbacks ?w2) cb"
      by (simp add: register_keys_keeps_all)
    have "distinct (map fst (pendingCallbacks w1))" using assms(2) p1 by simp
    then have d: "distinct (map fst (pendingCallbacks ?w2))"
      by (simp add: distinct_register_keys)
    have "same_pass w w1" using st by (rule start_throttle_same)
    then have s: "same_pass w ?w2" by (simp add: same_pass_def)
    have t: "trigger R sid a w = R ?w2 \<or> trigger R sid a w = Ok ?w2"
      using na by (simp add: trigger_def st Let_def)
    from a d s t show "\<exists>w2. pending_all (pendingCallbacks w2) cb
               \<and> distinct (map fst (pendingCallbacks w2))
               \<and> same_pass w w2
               \<and> (trigger R sid a w = R w2 \<or> trigger R sid a w = Ok w2)" by blast
  qed
  have 3: "\<forall>arg. (cb, arg) \<in> set (fst (begin_pass w)) \<longrightarrow> arg = None"
  proof (intro allI impI)
    fix arg assume "(cb, arg) \<in> set (fst (begin_pass w))"
    moreover obtain cs kept where c: "capture (triggerBlockCount w) (bypassThrottle w) (now w)
        (pendingCallbacks w) = (cs, kept)" by (cases "capture (triggerBlockCount w)
        (bypassThrottle w) (now w) (pendingCallbacks w)")
    ultimately have "(cb, arg) \<in> set cs"
      by (simp add: begin_pass_def Let_def)
    from capture_subset[OF c this]
    obtain m where m: "(cb, m) \<in> set (pendingCallbacks w)" and a: "arg = map_option uniq (keys m)"
      by blast
    from m assms(2) have "map_of (pendingCallbacks w) cb = Some m" by simp
    with assms(1) have "keys m = None" by (simp add: pending_all_def)
    with a show "arg = None" by simp
  qed
  have 4: "(cb, None) \<in> set (fst (begin_pass w))"
    if "map_of (pendingCallbacks w) cb = Some m" and "passes_gates w (cb, m)" for m
  proof -
    from that have "(cb, map_option uniq (keys m)) \<in> set (fst (begin_pass w))"
      by (rule passing_entry_captured)
    moreover from that(1) assms(1) have "keys m = None" by (simp add: pending_all_def)
    ultimately show ?thesis by simp
  qed
  have 5: "\<forall>w3. invoke_callbacks beh (resolveCallbacks beh n) (fst (begin_pass w))
                  (snd (begin_pass w)) = Ok w3 \<longrightarrow>
            invoked_of (calls w3) = invoked_of (calls w) @ fst (begin_pass w)"
  proof (intro allI impI)
    fix w3
    assume i: "invoke_callbacks beh (resolveCallbacks beh n) (fst (begin_pass w))
                  (snd (begin_pass w)) = Ok w3"
    have t: "isTriggering (snd (begin_pass w))" and c: "calls (snd (begin_pass w)) = calls w"
      by (simp_all add: begin_pass_eq)
    from invoke_callbacks_in_pass[OF t, of beh n "fst (begin_pass w)"] i c
    show "invoked_of (calls w3) = invoked_of (calls w) @ fst (begin_pass w)" by auto
  qed
  have 6: "\<exists>pre rest. invoked_of (calls w') = invoked_of (calls w) @ pre @ (cb, None) # rest
                \<and> cb \<notin> fst ` set pre"
    if nt: "\<not> isTriggering w" and m: "map_of (pendingCallbacks w) cb = Some m"
      and g: "passes_gates w (cb, m)" and r: "resolveCallbacks beh (Suc n) w = Ok w'" for m w'
  proof -
    from m g have "(cb, None) \<in> set (fst (begin_pass w))" by (rule 4)
    then obtain pre post where sp: "fst (begin_pass w) = pre @ (cb, None) # post"
      by (auto simp: in_set_conv_decomp)
    have "distinct (map fst (fst (begin_pass w)))"
      unfolding begin_pass_eq fst_conv using assms(2) by (rule distinct_deliveries)
    with sp have np: "cb \<notin> fst ` set pre" by auto
    from nt r have "resolve_pass beh (resolveCallbacks beh n) w = Ok w'" by simp
    from first_pass_invocations[OF this] obtain rest where
      "invoked_of (calls w') = invoked_of (calls w) @ fst (begin_pass w) @ rest" by blast
    with sp have "invoked_of (calls w') = invoked_of (calls w) @ pre @ (cb, None) # (post @ rest)"
      by simp
    with np show ?thesis by blast
  qed
  from 4 have c4: "\<forall>m. map_of (pendingCallbacks w) cb = Some m \<and> passes_gates w (cb, m) \<longrightarrow>
            (cb, None) \<in> set (fst (begin_pass w))" by blast
  from 6 have c6: "\<forall>m w'. \<not> isTriggering w \<and> map_of (pendingCallbacks w) cb = Some m
                  \<and> passes_gates w (cb, m) \<and> resolveCallbacks beh (Suc n) w = Ok w' \<longrightarrow>
            (\<exists>pre rest. invoked_of (calls w') = invoked_of (calls w) @ pre @ (cb, None) # rest
                \<and> cb \<notin> fst ` set pre)" by blast
  from 1 2 3 c4 5 c6 show ?thesis by (intro conjI)
qed

theorem all_keys_entry_is_sticky_witness:
  "pending_all (pendingCallbacks sticky_ready) 1
   \<and> distinct (map fst (pendingCallbacks sticky_ready))
   \<and> \<not> all_keys_branch (One (Str ''a''))
   \<and> pending_all (setupSpecificKeySubscription [''a''] 1 None False
        (pendingCallbacks sticky_ready)) 1
   \<and> map_result (\<lambda>w. map_option keys (map_of (pendingCallbacks w) 1))
        (trigger (resolveCallbacks quiet 1) 0 (One (Str ''a'')) sticky_world) = Ok (Some None)
   \<and> fst (begin_pass sticky_ready) = [(1, None)]
   \<and> map_result (\<lambda>w3. invoked_of (calls w3))
        (invoke_callbacks quiet (resolveCallbacks quiet 0) (fst (begin_pass sticky_ready))
           (snd (begin_pass sticky_ready))) = Ok [(1, None)]
   \<and> map_result (\<lambda>w'. \<exists>pre rest. invoked_of (calls w') = pre @ (1, None) # rest
                      \<and> 1 \<notin> fst ` set pre)
        (resolveCallbacks quiet (Suc 0) sticky_ready) = Ok True
   \<and> map_result (\<lambda>w'. invoked_of (calls w'))
        (trigger (resolveCallbacks quiet 1) 0 (One (Str ''a'')) sticky_ready) = Ok [(1, None)]
   \<and> map_result (\<lambda>w'. invoked_of (calls w'))
        (exec_ops (resolveCallbacks quiet 2)
           [OpSubscribe 0 1 (Some (Str ''a'')), OpPushTriggerBlock [], OpTrigger 0 NoArg,
            OpTrigger 0 (One (Str ''a'')), OpPopTriggerBlock []] plain_world) = Ok [(1, None)]"
proof -
  let ?m = "\<lparr>keys = None, throttledUntil = None, bypassBlock = False\<rparr>"
  have p: "pending_all (pendingCallbacks sticky_ready) 1" by code_simp
  have d: "distinct (map fst (pendingCallbacks sticky_ready))" by code_simp
  have a: "\<not> all_keys_branch (One (Str ''a''))" by code_simp
  have nt: "\<not> isTriggering sticky_ready" by code_simp
  have m: "map_of (pendingCallbacks sticky_ready) 1 = Some ?m" by code_simp
  have g: "passes_gates sticky_ready (1, ?m)" by code_simp
  have c0: "invoked_of (calls sticky_ready) = []" by code_simp
  have t: "map_result (\<lambda>w. map_option keys (map_of (pendingCallbacks w) 1))
        (trigger (resolveCallbacks quiet 1) 0 (One (Str ''a'')) sticky_world) = Ok (Some None)"
    by code_simp
  have b: "fst (begin_pass sticky_ready) = [(1, None)]" by code_simp
  have e: "map_result (\<lambda>w'. invoked_of (calls w'))
        (trigger (resolveCallbacks quiet 1) 0 (One (Str ''a'')) sticky_ready) = Ok [(1, None)]"
    by code_simp
  have x: "map_result (\<lambda>w'. invoked_of (calls w'))
        (exec_ops (resolveCallbacks quiet 2)
           [OpSubscribe 0 1 (Some (Str ''a'')), OpPushTriggerBlock [], OpTrigger 0 NoArg,
            OpTrigger 0 (One (Str ''a'')), OpPopTriggerBlock []] plain_world) = Ok [(1, None)]"
    by code_simp
  note s = all_keys_entry_is_sticky [OF p d, of "[''a'']" None False "One (Str ''a'')"
      "resolveCallbacks quiet 1" 0 quiet 0]
  have 1: "pending_all (setupSpecificKeySubscription [''a''] 1 None False
        (pendingCallbacks sticky_ready)) 1"
    using s by (rule conjunct1)
  have "map_result (\<lambda>w3. True)
        (invoke_callbacks quiet (resolveCallbacks quiet 0) (fst (begin_pass sticky_ready))
           (snd (begin_pass sticky_ready))) = Ok True" by code_simp
  then obtain w3 where w3: "invoke_callbacks quiet (resolveCallbacks quiet 0)
      (fst (begin_pass sticky_ready)) (snd (begin_pass sticky_ready)) = Ok w3"
    by (auto simp: map_result_Ok)
  have "invoked_of (calls w3) = invoked_of (calls sticky_ready) @ fst (begin_pass sticky_ready)"
    using s w3 by blast
  then have 2: "map_result (\<lambda>w3. invoked_of (calls w3))
        (invoke_callbacks quiet (resolveCallbacks quiet 0) (fst (begin_pass sticky_ready))
           (snd (begin_pass sticky_ready))) = Ok [(1, None)]"
    unfolding w3 by (simp add: c0 b)
  have "map_result (\<lambda>w'. True) (resolveCallbacks quiet (Suc 0) sticky_ready) = Ok True"
    by code_simp
  then obtain w' where w': "resolveCallbacks quiet (Suc 0) sticky_ready = Ok w'"
    by (auto simp: map_result_Ok)
  have "\<exists>pre rest. invoked_of (calls w') = invoked_of (calls sticky_ready) @ pre @ (1, None) # rest
                \<and> 1 \<notin> fst ` set pre"
    using s nt m g w' by blast
  then have 3: "map_result (\<lambda>w'. \<exists>pre rest. invoked_of (calls w') = pre @ (1, None) # rest
                      \<and> 1 \<notin> fst ` set pre)
        (resolveCallbacks quiet (Suc 0) sticky_ready) = Ok True"
    unfolding w' by (simp add: c0)
  from p d a 1 t b 2 3 e x show ?thesis by (intro conjI)
qed

subsection \<open>Trigger blocks\<close>

lemma passes_gates_unblocked:
  "passes_gates (w\<lparr>triggerBlockCount := 0\<rparr>) = (\<lambda>e. \<not> skipped_by_throttle w (snd e))"
  by (simp add: fun_eq_iff passes_gates_def skipped_by_block_def skipped_by_throttle_def
      cong: option.case_cong)

text \<open>Called on a subclass, the three static methods write a property of that subclass: the
  counter and the flag of \<^verbatim>\<open>StoreBase\<close>, which the resolver reads, stay as they were.\<close>

lemma subclass_receiver_keeps_shared_statics:
  assumes "c \<noteq> []"
  shows "triggerBlockCount (pushTriggerBlock c w) = triggerBlockCount w"
    and "get_triggerBlockCount c (pushTriggerBlock c w) = get_triggerBlockCount c w + 1"
    and "bypassThrottle (set_bypassThrottle c b w) = bypassThrottle w"
  using assms
  by (simp_all add: pushTriggerBlock_def shared_triggerBlockCount set_bypassThrottle_def)

text \<open>C6: \<^verbatim>\<open>pushTriggerBlock\<close> increments and \<^verbatim>\<open>popTriggerBlock\<close> decrements the
  shared counter, which stays non-negative; popping at zero is the fatal assertion; a pop
  that brings the counter to zero calls the resolver. This is so for the calls made on
  \<^verbatim>\<open>StoreBase\<close> itself, the class whose counter the resolver reads. When no pass is
  executing, the call of the resolver runs a pass at once, which captures every entry the
  throttle gate lets through (the block gate is open). When the pop is made from inside a
  running pass, the call meets the guard and only records a pending request. Whatever the
  call and the class it is made on, the shared counter stays non-negative.\<close>

theorem trigger_block_counter:
  "pushTriggerBlock [] w = w\<lparr>triggerBlockCount := triggerBlockCount w + 1\<rparr>
   \<and> (triggerBlockCount w \<le> 0 \<longrightarrow> popTriggerBlock R [] w = Throw ImbalancedBlockStack)
   \<and> (1 < triggerBlockCount w \<longrightarrow>
        popTriggerBlock R [] w = Ok (w\<lparr>triggerBlockCount := triggerBlockCount w - 1\<rparr>))
   \<and> (triggerBlockCount w = 1 \<longrightarrow> popTriggerBlock R [] w = R (w\<lparr>triggerBlockCount := 0\<rparr>))
   \<and> (triggerBlockCount w = 1 \<and> \<not> isTriggering w \<longrightarrow>
        popTriggerBlock (resolveCallbacks beh (Suc n)) [] w
          = resolve_pass beh (resolveCallbacks beh n) (w\<lparr>triggerBlockCount := 0\<rparr>)
        \<and> fst (begin_pass (w\<lparr>triggerBlockCount := 0\<rparr>))
          = map delivery (filter (\<lambda>e. \<not> skipped_by_throttle w (snd e)) (pendingCallbacks w)))
   \<and> (triggerBlockCount w = 1 \<and> isTriggering w \<longrightarrow>
        popTriggerBlock (resolveCallbacks beh n) [] w
          = Ok (w\<lparr>triggerBlockCount := 0, triggerPending := True\<rparr>))
   \<and> (0 \<le> triggerBlockCount w \<and> exec_op (resolveCallbacks beh n) x w = Ok w' \<longrightarrow>
        0 \<le> triggerBlockCount w')"
proof (intro conjI impI)
  note defs = popTriggerBlock_def Let_def set_triggerBlockCount_def get_triggerBlockCount_def
  show "pushTriggerBlock [] w = w\<lparr>triggerBlockCount := triggerBlockCount w + 1\<rparr>"
    by (simp add: pushTriggerBlock_def set_triggerBlockCount_def get_triggerBlockCount_def)
  show "popTriggerBlock R [] w = Throw ImbalancedBlockStack" if "triggerBlockCount w \<le> 0"
    using that by (simp add: defs)
  show "popTriggerBlock R [] w = Ok (w\<lparr>triggerBlockCount := triggerBlockCount w - 1\<rparr>)"
    if "1 < triggerBlockCount w"
    using that by (simp add: defs)
  show "popTriggerBlock R [] w = R (w\<lparr>triggerBlockCount := 0\<rparr>)" if "triggerBlockCount w = 1"
    using that by (simp add: defs)
  show "popTriggerBlock (resolveCallbacks beh (Suc n)) [] w
          = resolve_pass beh (resolveCallbacks beh n) (w\<lparr>triggerBlockCount := 0\<rparr>)"
    if "triggerBlockCount w = 1 \<and> \<not> isTriggering w"
    using that by (simp add: defs)
  show "fst (begin_pass (w\<lparr>triggerBlockCount := 0\<rparr>))
          = map delivery (filter (\<lambda>e. \<not> skipped_by_throttle w (snd e)) (pendingCallbacks w))"
    if "triggerBlockCount w = 1 \<and> \<not> isTriggering w"
    by (simp add: begin_pass_eq passes_gates_unblocked)
  show "popTriggerBlock (resolveCallbacks beh n) [] w
          = Ok (w\<lparr>triggerBlockCount := 0, triggerPending := True\<rparr>)"
    if "triggerBlockCount w = 1 \<and> isTriggering w"
    using that by (simp add: defs resolve_guard)
  show "0 \<le> triggerBlockCount w'"
    if "0 \<le> triggerBlockCount w \<and> exec_op (resolveCallbacks beh n) x w = Ok w'"
  proof -
    have "preserves (\<lambda>w. 0 \<le> triggerBlockCount w) (exec_op (resolveCallbacks beh n) x)"
      by (rule count_exec_op[OF count_resolveCallbacks])
    from preservesD[OF this, of w w'] that show ?thesis by simp
  qed
qed

theorem trigger_block_counter_witness:
  "triggerBlockCount (pushTriggerBlock [] plain_world) = 1
   \<and> popTriggerBlock (resolveCallbacks quiet 1) [] plain_world = Throw ImbalancedBlockStack
   \<and> map_result triggerBlockCount
       (popTriggerBlock (resolveCallbacks quiet 1) [] (pushTriggerBlock [] sticky_world)) = Ok 1
   \<and> map_result (\<lambda>w. (triggerBlockCount w, invoked_of (calls w), pendingCallbacks w))
       (popTriggerBlock (resolveCallbacks quiet (Suc 0)) [] sticky_world) = Ok (0, [(1, None)], [])
   \<and> map_result (\<lambda>w. (triggerBlockCount w, triggerPending w, invoked_of (calls w),
                       map fst (pendingCallbacks w)))
       (popTriggerBlock (resolveCallbacks quiet 1) [] (sticky_world\<lparr>isTriggering := True\<rparr>))
       = Ok (0, True, [], [1])
   \<and> map_result triggerBlockCount
       (exec_op (resolveCallbacks quiet 1) (OpPopTriggerBlock [7]) (pushTriggerBlock [7] sticky_world))
       = Ok 1"
proof -
  let ?R = "resolveCallbacks quiet 1"
  let ?t = "sticky_world\<lparr>isTriggering := True\<rparr>"
  let ?p = "pushTriggerBlock [] sticky_world"
  let ?q = "pushTriggerBlock [7] sticky_world"
  have c0: "triggerBlockCount plain_world = 0" by code_simp
  have c1: "triggerBlockCount sticky_world = 1" by code_simp
  have c2: "triggerBlockCount ?p = 2" by code_simp
  have cq: "triggerBlockCount ?q = 1" by code_simp
  have ct: "triggerBlockCount ?t = 1" by code_simp
  have nt: "\<not> isTriggering sticky_world" by code_simp
  have it: "isTriggering ?t" by simp
  note A = trigger_block_counter [of plain_world ?R quiet 0 "OpPushTriggerBlock []" plain_world]
  note B = trigger_block_counter [of ?p ?R quiet 0 "OpPushTriggerBlock []" plain_world]
  note C = trigger_block_counter [of sticky_world ?R quiet 0 "OpPushTriggerBlock []" plain_world]
  note D = trigger_block_counter [of ?t ?R quiet 1 "OpPushTriggerBlock []" plain_world]
  have 1: "triggerBlockCount (pushTriggerBlock [] plain_world) = 1"
    using A [THEN conjunct1] c0 by simp
  have 2: "popTriggerBlock ?R [] plain_world = Throw ImbalancedBlockStack"
    using A [THEN conjunct2, THEN conjunct1] c0 by (simp only: order_refl simp_thms)
  have "popTriggerBlock ?R [] ?p = Ok (?p\<lparr>triggerBlockCount := triggerBlockCount ?p - 1\<rparr>)"
    using B [THEN conjunct2, THEN conjunct2, THEN conjunct1] c2 by (simp only:)
  then have 3: "map_result triggerBlockCount (popTriggerBlock ?R [] ?p) = Ok 1"
    using c2 by (simp only: map_result.simps) simp
  have e: "map_result (\<lambda>w. (triggerBlockCount w, invoked_of (calls w), pendingCallbacks w))
       (resolve_pass quiet (resolveCallbacks quiet 0) (sticky_world\<lparr>triggerBlockCount := 0\<rparr>))
       = Ok (0, [(1, None)], [])" by code_simp
  have "popTriggerBlock (resolveCallbacks quiet (Suc 0)) [] sticky_world
      = resolve_pass quiet (resolveCallbacks quiet 0) (sticky_world\<lparr>triggerBlockCount := 0\<rparr>)"
    using C [THEN conjunct2, THEN conjunct2, THEN conjunct2, THEN conjunct2, THEN conjunct1]
      c1 nt by (simp only: simp_thms One_nat_def)
  with e have 4: "map_result (\<lambda>w. (triggerBlockCount w, invoked_of (calls w), pendingCallbacks w))
       (popTriggerBlock (resolveCallbacks quiet (Suc 0)) [] sticky_world) = Ok (0, [(1, None)], [])"
    by (simp only:)
  have "popTriggerBlock ?R [] ?t = Ok (?t\<lparr>triggerBlockCount := 0, triggerPending := True\<rparr>)"
    using D [THEN conjunct2, THEN conjunct2, THEN conjunct2, THEN conjunct2, THEN conjunct2,
        THEN conjunct1] ct it by (simp only: simp_thms)
  moreover have "map fst (pendingCallbacks sticky_world) = [1]" "calls sticky_world = []"
    by code_simp+
  ultimately have 5: "map_result (\<lambda>w. (triggerBlockCount w, triggerPending w, invoked_of (calls w),
                       map fst (pendingCallbacks w))) (popTriggerBlock ?R [] ?t) = Ok (0, True, [], [1])"
    by simp
  have 6: "map_result triggerBlockCount (exec_op ?R (OpPopTriggerBlock [7]) ?q) = Ok 1"
    by code_simp
  then obtain v where v: "exec_op ?R (OpPopTriggerBlock [7]) ?q = Ok v"
    by (auto simp: map_result_Ok)
  have "0 \<le> triggerBlockCount v"
    using trigger_block_counter [of ?q ?R quiet 1 "OpPopTriggerBlock [7]" v] cq v
    by (simp only: simp_thms)
  from 1 2 3 4 5 6 show ?thesis by (intro conjI)
qed

text \<open>A pop from inside a pass brings the counter to zero and runs no pass: nothing is
  called and the table is as it was. In the run of \<open>pop_run\<close>, callback 1 pops the block
  and pushes it again; the trigger of callback 2, accumulated while blocked, is never
  flushed. And a push made on a subclass leaves the shared counter at zero: the trigger
  that follows is delivered at once.\<close>

theorem pop_inside_a_pass_runs_no_pass:
  "map_result (\<lambda>w. (triggerBlockCount w, triggerPending w, invoked_of (calls w), marks w,
                     map fst (pendingCallbacks w)))
       (popTriggerBlock (resolveCallbacks quiet 3) [] (sticky_world\<lparr>isTriggering := True\<rparr>))
     = Ok (0, True, [], [], [1])
   \<and> map_result (\<lambda>w. (calls w, map fst (pendingCallbacks w), triggerBlockCount w))
       (exec_ops (resolveCallbacks pop_beh 3) pop_run bypass_world)
     = Ok ([Issued (OpSubscribe 1 1 (Some (Str ''a''))),
            Issued (OpSubscribe 0 2 (Some (Str ''b''))),
            Issued (OpPushTriggerBlock []), Issued (OpTrigger 0 (One (Str ''b''))),
            Issued (OpTrigger 1 (One (Str ''a''))), Invoked 1 (Some [''a'']),
            Issued (OpPopTriggerBlock []), Issued (OpPushTriggerBlock [])],
           [2], 1)
   \<and> map_result (\<lambda>w. (triggerBlockCount w, ownTriggerBlockCount w [7], invoked_of (calls w)))
       (exec_ops (resolveCallbacks quiet 3)
          [OpSubscribe 0 2 (Some (Str ''b'')), OpPushTriggerBlock [7],
           OpTrigger 0 (One (Str ''b''))] plain_world)
     = Ok (0, Some 1, [(2, Some [''b''])])"
  by code_simp

subsection \<open>Removal and the pending table\<close>

lemma begin_pass_callbacks_subset:
  "set (map fst (fst (begin_pass w))) \<subseteq> set (map fst (pendingCallbacks w))"
proof -
  have "map fst (fst (begin_pass w)) = map fst (filter (passes_gates w) (pendingCallbacks w))"
    by (simp only: begin_pass_eq fst_conv map_fst_delivery)
  then show ?thesis by auto
qed

lemma unsubscribe_pending:
  assumes "subsByNum (stores w sid) tok = Some (key, cb)" and "unsubscribe sid tok w = Ok w'"
  shows "pendingCallbacks w' = AList.delete cb (pendingCallbacks w)"
  using assms
  by (auto simp: unsubscribe_def update_store_def Let_def split: if_splits option.splits)

lemma removeAutoSubscription_pending:
  assumes "removeAutoSubscription sid a w = Ok w'"
  shows "pendingCallbacks w' = AList.delete (as_callback a) (pendingCallbacks w)"
  using assms
  by (auto simp: removeAutoSubscription_def update_store_def Let_def
      split: if_splits option.splits)

lemma deleted_not_captured:
  assumes "pendingCallbacks w = AList.delete cb p"
  shows "map_of (pendingCallbacks w) cb = None \<and> cb \<notin> set (map fst (fst (begin_pass w)))"
proof -
  have "cb \<notin> set (map fst (pendingCallbacks w))"
    by (simp add: assms AList.delete_eq image_iff)
  moreover have "map_of (pendingCallbacks w) cb = None"
    by (simp add: assms AList.delete_conv')
  ultimately show ?thesis using begin_pass_callbacks_subset[of w] by blast
qed

text \<open>C7: unsubscribing a callback purges its pending entry, so that it is not called for
  a trigger queued before. \<^verbatim>\<open>unsubscribe\<close> and \<^verbatim>\<open>removeAutoSubscription\<close> delete the
  entry of the callback from the table, so a pass that begins after the removal does not
  capture the callback for a trigger queued before it. A pass that is running calls every
  callback it has captured, whatever those callbacks do: a callback removed in the meantime
  is still called.\<close>

theorem removal_purges_pending_entry:
  "(subsByNum (stores w sid) tok = Some (key, cb) \<and> unsubscribe sid tok w = Ok w' \<longrightarrow>
       map_of (pendingCallbacks w') cb = None \<and> cb \<notin> set (map fst (fst (begin_pass w'))))
   \<and> (removeAutoSubscription sid a w = Ok w' \<longrightarrow>
       map_of (pendingCallbacks w') (as_callback a) = None
       \<and> as_callback a \<notin> set (map fst (fst (begin_pass w'))))
   \<and> (isTriggering w \<and> invoke_callbacks beh (resolveCallbacks beh n) cbs w = Ok w' \<longrightarrow>
       invoked_of (calls w') = invoked_of (calls w) @ cbs)"
proof -
  have 1: "subsByNum (stores w sid) tok = Some (key, cb) \<and> unsubscribe sid tok w = Ok w' \<longrightarrow>
       map_of (pendingCallbacks w') cb = None \<and> cb \<notin> set (map fst (fst (begin_pass w')))"
  proof
    assume "subsByNum (stores w sid) tok = Some (key, cb) \<and> unsubscribe sid tok w = Ok w'"
    then have "pendingCallbacks w' = AList.delete cb (pendingCallbacks w)"
      using unsubscribe_pending by blast
    then show "map_of (pendingCallbacks w') cb = None
        \<and> cb \<notin> set (map fst (fst (begin_pass w')))"
      by (rule deleted_not_captured)
  qed
  have 2: "removeAutoSubscription sid a w = Ok w' \<longrightarrow>
       map_of (pendingCallbacks w') (as_callback a) = None
       \<and> as_callback a \<notin> set (map fst (fst (begin_pass w')))"
  proof
    assume "removeAutoSubscription sid a w = Ok w'"
    then have "pendingCallbacks w' = AList.delete (as_callback a) (pendingCallbacks w)"
      by (rule removeAutoSubscription_pending)
    then show "map_of (pendingCallbacks w') (as_callback a) = None
         \<and> as_callback a \<notin> set (map fst (fst (begin_pass w')))"
      by (rule deleted_not_captured)
  qed
  have 3: "isTriggering w \<and> invoke_callbacks beh (resolveCallbacks beh n) cbs w = Ok w' \<longrightarrow>
       invoked_of (calls w') = invoked_of (calls w) @ cbs"
    using invoke_callbacks_in_pass by blast
  show ?thesis by (rule conjI [OF 1 conjI [OF 2 3]])
qed

theorem removal_purges_pending_entry_witness:
  "subsByNum (stores two_keys_world 0) 1 = Some (''a'', 1)
   \<and> map_result (\<lambda>w. map_of (pendingCallbacks w) 1) (unsubscribe 0 1 two_keys_world) = Ok None
   \<and> map_of (pendingCallbacks auto_world) 5
       = Some \<lparr>keys = Some [''a''], throttledUntil = None, bypassBlock = False\<rparr>
   \<and> map_result (\<lambda>w. map_of (pendingCallbacks w) 5)
       (removeAutoSubscription 0 auto_sub auto_world) = Ok None"
proof -
  have s: "subsByNum (stores two_keys_world 0) 1 = Some (''a'', 1)" by code_simp
  have "map_result (\<lambda>w. True) (unsubscribe 0 1 two_keys_world) = Ok True" by code_simp
  then obtain w' where w': "unsubscribe 0 1 two_keys_world = Ok w'"
    by (auto simp: map_result_Ok)
  have 1: "map_of (pendingCallbacks w') 1 = None"
    using removal_purges_pending_entry
      [where w = two_keys_world and sid = 0 and tok = 1 and key = "''a''" and cb = 1 and w' = w']
      s w' by simp
  have a: "map_of (pendingCallbacks auto_world) 5
       = Some \<lparr>keys = Some [''a''], throttledUntil = None, bypassBlock = False\<rparr>" by code_simp
  have "map_result (\<lambda>w. True) (removeAutoSubscription 0 auto_sub auto_world) = Ok True"
    by code_simp
  then obtain v' where v': "removeAutoSubscription 0 auto_sub auto_world = Ok v'"
    by (auto simp: map_result_Ok)
  have c: "as_callback auto_sub = 5" by code_simp
  have 2: "map_of (pendingCallbacks v') 5 = None"
    using removal_purges_pending_entry
      [where w = auto_world and sid = 0 and a = auto_sub and w' = v'] v' c by simp
  from s a 1 2 show ?thesis unfolding w' v' by simp
qed

text \<open>Callback 2 was captured by the pass together with callback 1; callback 1 unsubscribes
  it, and the pass calls it all the same.\<close>

theorem captured_callback_runs_after_unsubscribe:
  "map_result (\<lambda>w. (calls w, subsByNum (stores w 0) 2, subscriptions (stores w 0)))
       (exec_ops (resolveCallbacks unsub_beh 2) unsub_run plain_world)
     = Ok ([Issued (OpSubscribe 0 1 (Some (Str ''a''))),
            Issued (OpSubscribe 0 2 (Some (Str ''a''))),
            Issued (OpTrigger 0 (One (Str ''a''))), Invoked 1 (Some [''a'']),
            Issued (OpUnsubscribe 0 2), Invoked 2 (Some [''a''])],
           None, [(''a'', [1])])"
  by code_simp

lemma delete_as_filter: "AList.delete k p = filter (\<lambda>e. fst e \<noteq> k) p"
  by (induction p) auto

text \<open>C10: unsubscribing any one subscription of a callback deletes the whole pending entry
  of the callback, whatever key, token or store the entry was accumulated for: the table
  loses every entry of the callback, while the other tokens, the lists of the other keys,
  the auto-subscriptions and the other stores are as they were. In \<open>two_keys_run\<close> the
  callback is still subscribed to key \<open>b\<close>, whose trigger was pending, and is never
  called.\<close>

theorem unsubscribe_discards_whole_entry:
  assumes "subsByNum (stores w sid) tok = Some (key, cb)" and "unsubscribe sid tok w = Ok w'"
  shows "pendingCallbacks w' = filter (\<lambda>e. fst e \<noteq> cb) (pendingCallbacks w)
       \<and> map_of (pendingCallbacks w') cb = None
       \<and> (\<forall>t. t \<noteq> tok \<longrightarrow> subsByNum (stores w' sid) t = subsByNum (stores w sid) t)
       \<and> (\<forall>k. k \<noteq> key \<longrightarrow>
             map_of (subscriptions (stores w' sid)) k = map_of (subscriptions (stores w sid)) k)
       \<and> autoSubscriptions (stores w' sid) = autoSubscriptions (stores w sid)
       \<and> (\<forall>s. s \<noteq> sid \<longrightarrow> stores w' s = stores w s)"
proof -
  have p: "pendingCallbacks w' = AList.delete cb (pendingCallbacks w)"
    using assms by (rule unsubscribe_pending)
  have 1: "pendingCallbacks w' = filter (\<lambda>e. fst e \<noteq> cb) (pendingCallbacks w)"
    by (simp add: p delete_as_filter)
  have 2: "map_of (pendingCallbacks w') cb = None" by (simp add: p AList.delete_conv')
  have 3: "\<forall>t. t \<noteq> tok \<longrightarrow> subsByNum (stores w' sid) t = subsByNum (stores w sid) t"
    using assms
    by (auto simp: unsubscribe_def update_store_def Let_def split: if_splits option.splits)
  have 4: "\<forall>k. k \<noteq> key \<longrightarrow>
             map_of (subscriptions (stores w' sid)) k = map_of (subscriptions (stores w sid)) k"
    using assms
    by (auto simp: unsubscribe_def update_store_def Let_def AList.delete_conv' AList.update_conv'
        split: if_splits option.splits)
  have 5: "autoSubscriptions (stores w' sid) = autoSubscriptions (stores w sid)"
    using assms
    by (auto simp: unsubscribe_def update_store_def Let_def split: if_splits option.splits)
  have 6: "\<forall>s. s \<noteq> sid \<longrightarrow> stores w' s = stores w s"
    using assms
    by (auto simp: unsubscribe_def update_store_def Let_def split: if_splits option.splits)
  from 1 2 3 4 5 6 show ?thesis by (intro conjI)
qed

theorem unsubscribe_discards_whole_entry_witness:
  "subsByNum (stores two_keys_world 0) 1 = Some (''a'', 1)
   \<and> pendingCallbacks two_keys_world
       = [(1, \<lparr>keys = Some [''b''], throttledUntil = None, bypassBlock = False\<rparr>)]
   \<and> map_result (\<lambda>w. (pendingCallbacks w, subsByNum (stores w 0) 2,
                       map_of (subscriptions (stores w 0)) ''b''))
       (unsubscribe 0 1 two_keys_world) = Ok ([], Some (''b'', 1), Some [1])
   \<and> map_result (\<lambda>w. invoked_of (calls w))
       (exec_ops (resolveCallbacks quiet 3) two_keys_run plain_world) = Ok []"
proof -
  have s: "subsByNum (stores two_keys_world 0) 1 = Some (''a'', 1)" by code_simp
  have p: "pendingCallbacks two_keys_world
       = [(1, \<lparr>keys = Some [''b''], throttledUntil = None, bypassBlock = False\<rparr>)]" by code_simp
  have "map_result (\<lambda>w. True) (unsubscribe 0 1 two_keys_world) = Ok True" by code_simp
  then obtain w' where w': "unsubscribe 0 1 two_keys_world = Ok w'"
    by (auto simp: map_result_Ok)
  have o: "subsByNum (stores two_keys_world 0) 2 = Some (''b'', 1)"
    "map_of (subscriptions (stores two_keys_world 0)) ''b'' = Some [1]" by code_simp+
  note t = unsubscribe_discards_whole_entry [OF s w']
  have 1: "pendingCallbacks w' = []" using t [THEN conjunct1] p by simp
  have 2: "subsByNum (stores w' 0) 2 = Some (''b'', 1)"
    using t [THEN conjunct2, THEN conjunct2, THEN conjunct1] o by simp
  have 3: "map_of (subscriptions (stores w' 0)) ''b'' = Some [1]"
    using t [THEN conjunct2, THEN conjunct2, THEN conjunct2, THEN conjunct1] o by simp
  have r: "map_result (\<lambda>w. invoked_of (calls w))
       (exec_ops (resolveCallbacks quiet 3) two_keys_run plain_world) = Ok []" by code_simp
  from s p r 1 2 3 show ?thesis unfolding w' by simp
qed

subsection \<open>Tracking hooks\<close>

lemma entries_at_update:
  "entries_at (AList.update k v d) k' =
     (if k' = k then (if inherited_key k then [] else v) else entries_at d k')"
  by (simp add: entries_at_def AList.update_conv')

lemma entries_at_delete:
  "entries_at (AList.delete k d) k' = (if k' = k then [] else entries_at d k')"
  by (simp add: entries_at_def AList.delete_conv')

lemma in_set_update: "e \<in> set (AList.update k v d) \<Longrightarrow> e = (k, v) \<or> e \<in> set d"
  by (induction d) (auto split: if_splits)

lemma in_set_delete: "e \<in> set (AList.delete k d) \<Longrightarrow> e \<in> set d"
  by (simp add: AList.delete_eq)

lemma wf_dict_update: "wf_dict d \<Longrightarrow> v \<noteq> [] \<Longrightarrow> wf_dict (AList.update k v d)"
  unfolding wf_dict_def using in_set_update by (fastforce simp: AList.distinct_update)

lemma wf_dict_delete: "wf_dict d \<Longrightarrow> wf_dict (AList.delete k d)"
  unfolding wf_dict_def using in_set_delete by (fastforce simp: AList.distinct_delete)

lemma wf_dict_lookup: "wf_dict d \<Longrightarrow> map_of d k = Some xs \<Longrightarrow> xs \<noteq> []"
  by (auto simp: wf_dict_def dest!: map_of_SomeD)

lemma wf_dict_empty_iff:
  "wf_dict d \<Longrightarrow> \<not> inherited_key k \<Longrightarrow> (entries_at d k = []) = (map_of d k = None)"
  by (auto simp: entries_at_def dest: wf_dict_lookup split: option.splits)

lemma concat_map_single:
  "distinct ks \<Longrightarrow> (\<And>k. k \<in> set ks \<Longrightarrow> k \<noteq> k0 \<Longrightarrow> f k = []) \<Longrightarrow>
     concat (map f ks) = (if k0 \<in> set ks then f k0 else [])"
  by (induction ks) auto

lemma transition_same: "transition k c c = []"
  by (cases c) (simp_all add: transition_def)

lemma changes_step:
  assumes "\<And>k. k \<noteq> k0 \<Longrightarrow> subscriber_count s' k = subscriber_count s k"
    and "k0 \<in> set (tracked_keys s @ tracked_keys s')"
  shows "changes s s' =
     (if k0 = Key_All then [] else transition k0 (subscriber_count s k0) (subscriber_count s' k0))"
proof -
  let ?ks = "filter (\<lambda>k. k \<noteq> Key_All) (remdups (tracked_keys s @ tracked_keys s'))"
  let ?f = "\<lambda>k. transition k (subscriber_count s k) (subscriber_count s' k)"
  have d: "distinct ?ks" by simp
  have z: "\<And>k. k \<in> set ?ks \<Longrightarrow> k \<noteq> k0 \<Longrightarrow> ?f k = []"
    using assms(1) by (simp add: transition_same)
  have "concat (map ?f ?ks) = (if k0 \<in> set ?ks then ?f k0 else [])"
    using d z by (rule concat_map_single)
  moreover have "k0 \<in> set ?ks \<longleftrightarrow> k0 \<noteq> Key_All" using assms(2) by auto
  ultimately show ?thesis by (simp add: changes_def)
qed

lemma grow_step:
  assumes "\<And>k. subscriber_count s' k =
             (if k = key then Suc (subscriber_count s key) else subscriber_count s k)"
    and "key \<in> set (tracked_keys s')"
    and "hooks s' = hooks s @
           (if key \<noteq> Key_All \<and> subscriber_count s key = 0 then [StartedTrackingKey key] else [])"
  shows "hooks s' = hooks s @ changes s s'"
proof -
  have "changes s s' =
     (if key = Key_All then []
      else transition key (subscriber_count s key) (subscriber_count s' key))"
    using assms(1,2) by (intro changes_step) simp_all
  then show ?thesis using assms(1,3) by (simp add: transition_def)
qed

lemma shrink_step:
  assumes "\<And>k. subscriber_count s' k =
             (if k = key then subscriber_count s key - 1 else subscriber_count s k)"
    and "1 \<le> subscriber_count s key"
    and "key \<in> set (tracked_keys s)"
    and "hooks s' = hooks s @
           (if key \<noteq> Key_All \<and> subscriber_count s key = 1 then [StoppedTrackingKey key] else [])"
  shows "hooks s' = hooks s @ changes s s'"
proof -
  have "changes s s' =
     (if key = Key_All then []
      else transition key (subscriber_count s key) (subscriber_count s' key))"
    using assms(1,3) by (intro changes_step) simp_all
  then show ?thesis using assms(1,2,4) by (auto simp: transition_def)
qed

lemma key_in_update: "k \<in> set (map fst (AList.update k v d))"
  by (simp add: AList.update_keys)

lemma key_of_lookup: "map_of d k = Some v \<Longrightarrow> k \<in> set (map fst d)"
  by (auto dest!: map_of_SomeD simp: image_iff) force

lemma subscribe_store:
  assumes "subscribe sid cb rk w = Ok (t, w')"
  defines "key \<equiv> (case rk of None \<Rightarrow> Key_All | Some k \<Rightarrow> key_string k)"
  defines "s \<equiv> stores w sid" and "s' \<equiv> stores w' sid"
  shows "\<not> inherited_key key"
    and "subscriptions s' = AList.update key (entries_at (subscriptions s) key @ [cb]) (subscriptions s)"
    and "autoSubscriptions s' = autoSubscriptions s"
    and "hooks s' = hooks s @
           (if key \<noteq> Key_All \<and> map_of (subscriptions s) key = None
               \<and> map_of (autoSubscriptions s) key = None
            then [StartedTrackingKey key] else [])"
  using assms(1) unfolding key_def s_def s'_def
  by (auto simp: subscribe_def update_store_def Let_def entries_at_def
      split: if_splits option.splits)

lemma subscribe_step:
  assumes wf: "wf_store (stores w sid)" and ok: "subscribe sid cb rk w = Ok (t, w')"
  shows "wf_store (stores w' sid)
       \<and> hooks (stores w' sid) = hooks (stores w sid) @ changes (stores w sid) (stores w' sid)"
proof -
  define key where "key = (case rk of None \<Rightarrow> Key_All | Some k \<Rightarrow> key_string k)"
  let ?s = "stores w sid" and ?s' = "stores w' sid"
  note f = subscribe_store[OF ok, folded key_def]
  have wf': "wf_store ?s'"
    using wf by (simp add: wf_store_def f(2,3) wf_dict_update)
  have c: "\<And>k. subscriber_count ?s' k =
             (if k = key then Suc (subscriber_count ?s key) else subscriber_count ?s k)"
    using f(1) by (simp add: subscriber_count_def f(2,3) entries_at_update)
  have t: "key \<in> set (tracked_keys ?s')"
    by (simp add: tracked_keys_def f(2) key_in_update del: set_map)
  have z: "(subscriber_count ?s key = 0) =
      (map_of (subscriptions ?s) key = None \<and> map_of (autoSubscriptions ?s) key = None)"
    using wf f(1) by (simp add: subscriber_count_def wf_store_def wf_dict_empty_iff)
  have h: "hooks ?s' = hooks ?s @
      (if key \<noteq> Key_All \<and> subscriber_count ?s key = 0 then [StartedTrackingKey key] else [])"
    by (simp only: f(4) z) 
  from grow_step[OF c t h] wf' show ?thesis by simp
qed

lemma unsubscribe_store:
  assumes "unsubscribe sid tok w = Ok w'"
  defines "s \<equiv> stores w sid" and "s' \<equiv> stores w' sid"
  obtains key cb cbs where "subsByNum s tok = Some (key, cb)" and "\<not> inherited_key key"
    and "map_of (subscriptions s) key = Some cbs" and "cb \<in> set cbs"
    and "subscriptions s' =
           (if remove1 cb cbs = [] then AList.delete key (subscriptions s)
            else AList.update key (remove1 cb cbs) (subscriptions s))"
    and "autoSubscriptions s' = autoSubscriptions s"
    and "hooks s' = hooks s @
           (if remove1 cb cbs = [] \<and> key \<noteq> Key_All \<and> map_of (autoSubscriptions s) key = None
            then [StoppedTrackingKey key] else [])"
proof -
  from assms(1) obtain key cb where t: "subsByNum (stores w sid) tok = Some (key, cb)"
    by (auto simp: unsubscribe_def Let_def split: option.splits)
  from assms(1) t have i: "\<not> inherited_key key"
    by (auto simp: unsubscribe_def Let_def split: if_splits)
  from assms(1) t i obtain cbs where l: "map_of (subscriptions (stores w sid)) key = Some cbs"
    by (auto simp: unsubscribe_def Let_def split: option.splits)
  from assms(1) t i l have m: "cb \<in> set cbs"
    by (auto simp: unsubscribe_def Let_def split: if_splits)
  from assms(1) t i l m have
    "subscriptions (stores w' sid) =
           (if remove1 cb cbs = [] then AList.delete key (subscriptions (stores w sid))
            else AList.update key (remove1 cb cbs) (subscriptions (stores w sid)))"
    "autoSubscriptions (stores w' sid) = autoSubscriptions (stores w sid)"
    "hooks (stores w' sid) = hooks (stores w sid) @
           (if remove1 cb cbs = [] \<and> key \<noteq> Key_All
               \<and> map_of (autoSubscriptions (stores w sid)) key = None
            then [StoppedTrackingKey key] else [])"
    by (auto simp: unsubscribe_def update_store_def Let_def split: if_splits)
  with t i l m that show ?thesis unfolding s_def s'_def by blast
qed

lemma remove1_empty_iff: "x \<in> set xs \<Longrightarrow> (remove1 x xs = []) = (length xs = 1)"
  by (cases xs) (auto split: if_splits)

lemma unsubscribe_step:
  assumes wf: "wf_store (stores w sid)" and ok: "unsubscribe sid tok w = Ok w'"
  shows "wf_store (stores w' sid)
       \<and> hooks (stores w' sid) = hooks (stores w sid) @ changes (stores w sid) (stores w' sid)"
proof -
  let ?s = "stores w sid" and ?s' = "stores w' sid"
  from ok obtain key cb cbs where t: "subsByNum ?s tok = Some (key, cb)"
    and i: "\<not> inherited_key key"
    and l: "map_of (subscriptions ?s) key = Some cbs" and m: "cb \<in> set cbs"
    and su: "subscriptions ?s' =
           (if remove1 cb cbs = [] then AList.delete key (subscriptions ?s)
            else AList.update key (remove1 cb cbs) (subscriptions ?s))"
    and au: "autoSubscriptions ?s' = autoSubscriptions ?s"
    and ho: "hooks ?s' = hooks ?s @
           (if remove1 cb cbs = [] \<and> key \<noteq> Key_All \<and> map_of (autoSubscriptions ?s) key = None
            then [StoppedTrackingKey key] else [])"
    by (rule unsubscribe_store)
  have wf': "wf_store ?s'"
    using wf by (simp add: wf_store_def su au wf_dict_update wf_dict_delete)
  have e: "entries_at (subscriptions ?s) key = cbs" using i l by (simp add: entries_at_def)
  have ne: "cbs \<noteq> []" using m by auto
  have lr: "length (remove1 cb cbs) = length cbs - 1" using m by (simp add: length_remove1)
  have l1: "1 \<le> length cbs" using ne by (cases cbs) auto
  have c: "\<And>k. subscriber_count ?s' k =
             (if k = key then subscriber_count ?s key - 1 else subscriber_count ?s k)"
    using i l1 lr
    by (auto simp: subscriber_count_def su au entries_at_update entries_at_delete e)
  have g: "1 \<le> subscriber_count ?s key" using ne by (simp add: subscriber_count_def e Suc_leI)
  have k: "key \<in> set (tracked_keys ?s)"
    using key_of_lookup[OF l] by (simp add: tracked_keys_def)
  have z: "(subscriber_count ?s key = 1) =
      (remove1 cb cbs = [] \<and> map_of (autoSubscriptions ?s) key = None)"
  proof -
    have "(entries_at (autoSubscriptions ?s) key = []) = (map_of (autoSubscriptions ?s) key = None)"
      using wf i by (simp add: wf_store_def wf_dict_empty_iff)
    then show ?thesis using ne m
      by (cases cbs) (auto simp: subscriber_count_def e remove1_empty_iff[OF m])
  qed
  have h: "hooks ?s' = hooks ?s @
      (if key \<noteq> Key_All \<and> subscriber_count ?s key = 1 then [StoppedTrackingKey key] else [])"
    unfolding ho z by auto
  from shrink_step[OF c g k h] wf' show ?thesis by simp
qed

lemma track_store:
  assumes "trackAutoSubscription sid a w = Ok w'"
  defines "key \<equiv> as_key a"
  defines "s \<equiv> stores w sid" and "s' \<equiv> stores w' sid"
  shows "\<not> inherited_key key"
    and "autoSubscriptions s' =
           AList.update key (entries_at (autoSubscriptions s) key @ [a]) (autoSubscriptions s)"
    and "subscriptions s' = subscriptions s"
    and "hooks s' = hooks s @
           (if key \<noteq> Key_All \<and> map_of (autoSubscriptions s) key = None
               \<and> map_of (subscriptions s) key = None
            then [StartedTrackingKey key] else [])"
  using assms(1) unfolding key_def s_def s'_def
  by (auto simp: trackAutoSubscription_def update_store_def Let_def entries_at_def
      split: if_splits option.splits)

lemma track_step:
  assumes wf: "wf_store (stores w sid)" and ok: "trackAutoSubscription sid a w = Ok w'"
  shows "wf_store (stores w' sid)
       \<and> hooks (stores w' sid) = hooks (stores w sid) @ changes (stores w sid) (stores w' sid)"
proof -
  define key where "key = as_key a"
  let ?s = "stores w sid" and ?s' = "stores w' sid"
  note f = track_store[OF ok, folded key_def]
  have wf': "wf_store ?s'"
    using wf by (simp add: wf_store_def f(2,3) wf_dict_update)
  have c: "\<And>k. subscriber_count ?s' k =
             (if k = key then Suc (subscriber_count ?s key) else subscriber_count ?s k)"
    using f(1) by (simp add: subscriber_count_def f(2,3) entries_at_update)
  have t: "key \<in> set (tracked_keys ?s')"
    by (simp add: tracked_keys_def f(2) key_in_update del: set_map)
  have z: "(subscriber_count ?s key = 0) =
      (map_of (autoSubscriptions ?s) key = None \<and> map_of (subscriptions ?s) key = None)"
    using wf f(1) by (auto simp: subscriber_count_def wf_store_def wf_dict_empty_iff)
  have h: "hooks ?s' = hooks ?s @
      (if key \<noteq> Key_All \<and> subscriber_count ?s key = 0 then [StartedTrackingKey key] else [])"
    by (simp only: f(4) z)
  from grow_step[OF c t h] wf' show ?thesis by simp
qed

lemma remove_store:
  assumes "removeAutoSubscription sid a w = Ok w'"
  defines "key \<equiv> as_key a"
  defines "s \<equiv> stores w sid" and "s' \<equiv> stores w' sid"
  obtains subs where "\<not> inherited_key key"
    and "map_of (autoSubscriptions s) key = Some subs"
    and "int (length (filter (\<lambda>x. as_ref x \<noteq> as_ref a) subs)) = int (length subs) - 1"
    and "autoSubscriptions s' =
           (if filter (\<lambda>x. as_ref x \<noteq> as_ref a) subs = [] then AList.delete key (autoSubscriptions s)
            else AList.update key (filter (\<lambda>x. as_ref x \<noteq> as_ref a) subs) (autoSubscriptions s))"
    and "subscriptions s' = subscriptions s"
    and "hooks s' = hooks s @
           (if filter (\<lambda>x. as_ref x \<noteq> as_ref a) subs = [] \<and> key \<noteq> Key_All \<and> map_of (subscriptions s) key = None
            then [StoppedTrackingKey key] else [])"
proof -
  from assms(1) have i: "\<not> inherited_key (as_key a)"
    by (auto simp: removeAutoSubscription_def Let_def split: if_splits)
  from assms(1) i obtain subs where
    l: "map_of (autoSubscriptions (stores w sid)) (as_key a) = Some subs"
    by (auto simp: removeAutoSubscription_def Let_def split: option.splits)
  from assms(1) i l have n: "int (length (filter (\<lambda>x. as_ref x \<noteq> as_ref a) subs)) = int (length subs) - 1"
    by (auto simp: removeAutoSubscription_def Let_def split: if_splits)
  from assms(1) i l n have
    "autoSubscriptions (stores w' sid) =
           (if filter (\<lambda>x. as_ref x \<noteq> as_ref a) subs = [] then AList.delete (as_key a) (autoSubscriptions (stores w sid))
            else AList.update (as_key a) (filter (\<lambda>x. as_ref x \<noteq> as_ref a) subs) (autoSubscriptions (stores w sid)))"
    "subscriptions (stores w' sid) = subscriptions (stores w sid)"
    "hooks (stores w' sid) = hooks (stores w sid) @
           (if filter (\<lambda>x. as_ref x \<noteq> as_ref a) subs = [] \<and> as_key a \<noteq> Key_All
               \<and> map_of (subscriptions (stores w sid)) (as_key a) = None
            then [StoppedTrackingKey (as_key a)] else [])"
    by (auto simp: removeAutoSubscription_def update_store_def Let_def split: if_splits)
  with i l n that show ?thesis unfolding s_def s'_def key_def by blast
qed

lemma remove_step:
  assumes wf: "wf_store (stores w sid)" and ok: "removeAutoSubscription sid a w = Ok w'"
  shows "wf_store (stores w' sid)
       \<and> hooks (stores w' sid) = hooks (stores w sid) @ changes (stores w sid) (stores w' sid)"
proof -
  define key where "key = as_key a"
  let ?s = "stores w sid" and ?s' = "stores w' sid"
  from ok obtain subs where i: "\<not> inherited_key key"
    and l: "map_of (autoSubscriptions ?s) key = Some subs"
    and n: "int (length (filter (\<lambda>x. as_ref x \<noteq> as_ref a) subs)) = int (length subs) - 1"
    and au: "autoSubscriptions ?s' =
           (if filter (\<lambda>x. as_ref x \<noteq> as_ref a) subs = [] then AList.delete key (autoSubscriptions ?s)
            else AList.update key (filter (\<lambda>x. as_ref x \<noteq> as_ref a) subs) (autoSubscriptions ?s))"
    and su: "subscriptions ?s' = subscriptions ?s"
    and ho: "hooks ?s' = hooks ?s @
           (if filter (\<lambda>x. as_ref x \<noteq> as_ref a) subs = [] \<and> key \<noteq> Key_All \<and> map_of (subscriptions ?s) key = None
            then [StoppedTrackingKey key] else [])"
    unfolding key_def by (rule remove_store)
  have wf': "wf_store ?s'"
    using wf by (simp add: wf_store_def su au wf_dict_update wf_dict_delete)
  have e: "entries_at (autoSubscriptions ?s) key = subs" using i l by (simp add: entries_at_def)
  have ne: "subs \<noteq> []" using n by auto
  have lr: "length (filter (\<lambda>x. as_ref x \<noteq> as_ref a) subs) = length subs - 1" using n by linarith
  have l1: "1 \<le> length subs" using ne by (cases subs) auto
  have c: "\<And>k. subscriber_count ?s' k =
             (if k = key then subscriber_count ?s key - 1 else subscriber_count ?s k)"
    using i l1 lr
    by (auto simp: subscriber_count_def su au entries_at_update entries_at_delete e)
  have g: "1 \<le> subscriber_count ?s key" using ne by (simp add: subscriber_count_def e Suc_leI)
  have k: "key \<in> set (tracked_keys ?s)"
    using key_of_lookup[OF l] by (simp add: tracked_keys_def)
  have z: "(subscriber_count ?s key = 1) =
      (filter (\<lambda>x. as_ref x \<noteq> as_ref a) subs = [] \<and> map_of (subscriptions ?s) key = None)"
  proof -
    have "(entries_at (subscriptions ?s) key = []) = (map_of (subscriptions ?s) key = None)"
      using wf i by (simp add: wf_store_def wf_dict_empty_iff)
    moreover have "(filter (\<lambda>x. as_ref x \<noteq> as_ref a) subs = []) = (length subs = 1)"
      using lr ne by (cases subs) auto
    ultimately show ?thesis using ne by (cases subs) (auto simp: subscriber_count_def e)
  qed
  have h: "hooks ?s' = hooks ?s @
      (if key \<noteq> Key_All \<and> subscriber_count ?s key = 1 then [StoppedTrackingKey key] else [])"
    unfolding ho z by auto
  from shrink_step[OF c g k h] wf' show ?thesis by simp
qed

lemma wf_new_store: "wf_store (new_store ms bypass)"
  by (simp add: wf_store_def wf_dict_def new_store_def)

lemma registry_step:
  assumes "wf_store (stores w sid)" and "registry_op sid x" and "exec_op R x w = Ok w'"
  shows "wf_store (stores w' sid)
       \<and> hooks (stores w' sid) = hooks (stores w sid) @ changes (stores w sid) (stores w' sid)"
proof (cases x)
  case (OpSubscribe s cb k)
  with assms(2,3) obtain t where "subscribe sid cb k w = Ok (t, w')"
    by (cases "subscribe sid cb k w") auto
  with assms(1) show ?thesis by (rule subscribe_step)
next
  case (OpUnsubscribe s t)
  with assms(2,3) have "unsubscribe sid t w = Ok w'" by simp
  with assms(1) show ?thesis by (rule unsubscribe_step)
next
  case (OpTrackAutoSubscription s a)
  with assms(2,3) have "trackAutoSubscription sid a w = Ok w'" by simp
  with assms(1) show ?thesis by (rule track_step)
next
  case (OpRemoveAutoSubscription s a)
  with assms(2,3) have "removeAutoSubscription sid a w = Ok w'" by simp
  with assms(1) show ?thesis by (rule remove_step)
qed (use assms(2) in simp_all)

text \<open>C9: for every key other than \<open>Key_All\<close>, the started hook is called exactly when the
  combined subscriber count of the key goes from zero to one, the stopped hook exactly when
  it goes from one to zero, across any interleaving of the four registry operations. From
  a store whose dictionaries hold no empty list (a new store does, and the four operations
  keep it so), the hook calls of a run that completes are those asked for by the changes of
  the counts, call after call.\<close>

theorem tracking_hooks_at_transitions:
  assumes "wf_store (stores w sid)" and "list_all (registry_op sid) xs"
    and "exec_ops R xs w = Ok w'"
  shows "hooks (stores w' sid) = hooks (stores w sid) @ expected_hooks R sid xs w
       \<and> wf_store (stores w' sid)"
  using assms
proof (induction xs arbitrary: w)
  case Nil
  then show ?case by simp
next
  case (Cons x xs)
  let ?w0 = "w\<lparr>calls := calls w @ [Issued x]\<rparr>"
  from Cons.prems(3) obtain w1 where
    1: "exec_op R x ?w0 = Ok w1" and 2: "exec_ops R xs w1 = Ok w'"
    by (auto simp: bind_Ok)
  have wf0: "wf_store (stores ?w0 sid)" using Cons.prems(1) by simp
  from Cons.prems(2) have rx: "registry_op sid x" and rxs: "list_all (registry_op sid) xs"
    by simp_all
  from registry_step[OF wf0 rx 1] have wf1: "wf_store (stores w1 sid)"
    and h1: "hooks (stores w1 sid) = hooks (stores w sid) @ changes (stores w sid) (stores w1 sid)"
    by simp_all
  from Cons.IH[OF wf1 rxs 2] h1 1 show ?case by simp
qed

theorem tracking_hooks_at_transitions_witness:
  "wf_store (stores plain_world 0) \<and> list_all (registry_op 0) registry_run
   \<and> map_result (\<lambda>w. hooks (stores w 0)) (exec_ops (resolveCallbacks quiet 0) registry_run plain_world)
       = Ok [StartedTrackingKey ''a'', StartedTrackingKey ''7'', StoppedTrackingKey ''a'',
             StoppedTrackingKey ''7'']
   \<and> expected_hooks (resolveCallbacks quiet 0) 0 registry_run plain_world
       = [StartedTrackingKey ''a'', StartedTrackingKey ''7'', StoppedTrackingKey ''a'',
          StoppedTrackingKey ''7'']"
proof -
  have wf: "wf_store (stores plain_world 0)"
    by (simp add: plain_world_def initial_world_def wf_new_store)
  have ops: "list_all (registry_op 0) registry_run" by code_simp
  have "map_result (\<lambda>w. True) (exec_ops (resolveCallbacks quiet 0) registry_run plain_world)
      = Ok True" by code_simp
  then obtain w' where w': "exec_ops (resolveCallbacks quiet 0) registry_run plain_world = Ok w'"
    by (auto simp: map_result_Ok)
  have e: "expected_hooks (resolveCallbacks quiet 0) 0 registry_run plain_world
       = [StartedTrackingKey ''a'', StartedTrackingKey ''7'', StoppedTrackingKey ''a'',
          StoppedTrackingKey ''7'']" by code_simp
  have h0: "hooks (stores plain_world 0) = []" by code_simp
  from tracking_hooks_at_transitions [OF wf ops w'] e h0
  have "hooks (stores w' 0) = [StartedTrackingKey ''a'', StartedTrackingKey ''7'',
      StoppedTrackingKey ''a'', StoppedTrackingKey ''7'']" by simp
  with wf ops e show ?thesis unfolding w' by simp
qed

subsection \<open>Invariants of the reachable states\<close>

lemma wf_initial_world: "wf_world (initial_world (\<lambda>sid. new_store (ms sid) (bp sid)) t dflt)"
  by (simp add: wf_world_def initial_world_def wf_new_store)

lemma start_throttle_wf:
  assumes "start_throttle sid w = (w1, u)" and "wf_world w"
  shows "wf_world w1"
  using assms
  by (auto simp: start_throttle_def Options_setTimeout_def update_store_def Let_def wf_world_def wf_store_def
      split: if_splits option.splits)

lemma trigger_wf:
  assumes R: "preserves wf_world R" and wf: "wf_world w" and ok: "trigger R sid a w = Ok w'"
  shows "wf_world w'"
proof -
  obtain w1 u where st: "start_throttle sid w = (w1, u)" by (cases "start_throttle sid w")
  have wf1: "wf_world w1" using st wf by (rule start_throttle_wf)
  let ?p = "if all_keys_branch a
            then register_all (stores w1 sid) u (bypassTriggerBlocks (stores w1 sid))
                   (pendingCallbacks w1)
            else register_keys (stores w1 sid) u (bypassTriggerBlocks (stores w1 sid))
                   (trigger_keys a) (pendingCallbacks w1)"
  let ?w2 = "w1\<lparr>pendingCallbacks := ?p\<rparr>"
  have wf2: "wf_world ?w2"
    using wf1 by (simp add: wf_world_def distinct_register_all distinct_register_keys)
  have "R ?w2 = Ok w' \<or> w' = ?w2"
    using ok by (auto simp: trigger_def st Let_def split: if_splits)
  then show ?thesis using wf2 preservesD[OF R wf2] by auto
qed

lemma subscribe_frame:
  assumes "subscribe sid cb rk w = Ok (t, w')"
  shows "pendingCallbacks w' = pendingCallbacks w \<and> (\<forall>s. s \<noteq> sid \<longrightarrow> stores w' s = stores w s)"
  using assms
  by (auto simp: subscribe_def update_store_def Let_def split: if_splits option.splits)

lemma unsubscribe_frame:
  assumes "unsubscribe sid tok w = Ok w'"
  shows "(\<exists>cb. pendingCallbacks w' = AList.delete cb (pendingCallbacks w))
       \<and> (\<forall>s. s \<noteq> sid \<longrightarrow> stores w' s = stores w s)"
  using assms
  by (auto simp: unsubscribe_def update_store_def Let_def
      split: if_splits option.splits prod.splits)

lemma track_frame:
  assumes "trackAutoSubscription sid a w = Ok w'"
  shows "pendingCallbacks w' = pendingCallbacks w \<and> (\<forall>s. s \<noteq> sid \<longrightarrow> stores w' s = stores w s)"
  using assms
  by (auto simp: trackAutoSubscription_def update_store_def Let_def
      split: if_splits option.splits)

lemma remove_frame:
  assumes "removeAutoSubscription sid a w = Ok w'"
  shows "(\<exists>cb. pendingCallbacks w' = AList.delete cb (pendingCallbacks w))
       \<and> (\<forall>s. s \<noteq> sid \<longrightarrow> stores w' s = stores w s)"
  using assms
  by (auto simp: removeAutoSubscription_def update_store_def Let_def
      split: if_splits option.splits)

lemma wf_world_step:
  assumes wf: "wf_world w"
    and p: "distinct (map fst (pendingCallbacks w)) \<Longrightarrow> distinct (map fst (pendingCallbacks w'))"
    and s: "wf_store (stores w' sid)"
    and f: "\<forall>s. s \<noteq> sid \<longrightarrow> stores w' s = stores w s"
  shows "wf_world w'"
  unfolding wf_world_def
proof (intro conjI allI)
  show "distinct (map fst (pendingCallbacks w'))" using wf p by (simp add: wf_world_def)
  fix x show "wf_store (stores w' x)"
    using wf s f by (cases "x = sid") (simp_all add: wf_world_def)
qed

lemma wf_world_exec_op:
  assumes R: "preserves wf_world R"
  shows "preserves wf_world (exec_op R x)"
  unfolding preserves_def
proof (intro allI impI, elim conjE)
  fix w w' assume wf: "wf_world w" and e: "exec_op R x w = Ok w'"
  then have wfs: "\<And>sid. wf_store (stores w sid)" by (simp add: wf_world_def)
  show "wf_world w'"
  proof (cases x)
    case (OpTrigger sid a)
    with e have "trigger R sid a w = Ok w'" by simp
    with R wf show ?thesis by (rule trigger_wf)
  next
    case (OpSubscribe sid cb k)
    with e obtain t where ok: "subscribe sid cb k w = Ok (t, w')"
      by (cases "subscribe sid cb k w") auto
    from subscribe_frame[OF ok] have p: "pendingCallbacks w' = pendingCallbacks w"
      and f: "\<forall>s. s \<noteq> sid \<longrightarrow> stores w' s = stores w s" by blast+
    from subscribe_step[OF wfs ok] have s: "wf_store (stores w' sid)" by (rule conjunct1)
    show ?thesis by (rule wf_world_step[OF wf _ s f]) (simp only: p)
  next
    case (OpUnsubscribe sid t)
    with e have ok: "unsubscribe sid t w = Ok w'" by simp
    from unsubscribe_frame[OF ok] obtain cb
      where p: "pendingCallbacks w' = AList.delete cb (pendingCallbacks w)"
      and f: "\<forall>s. s \<noteq> sid \<longrightarrow> stores w' s = stores w s" by blast
    from unsubscribe_step[OF wfs ok] have s: "wf_store (stores w' sid)" by (rule conjunct1)
    show ?thesis
      by (rule wf_world_step[OF wf _ s f]) (simp only: p AList.distinct_delete)
  next
    case (OpTrackAutoSubscription sid a)
    with e have ok: "trackAutoSubscription sid a w = Ok w'" by simp
    from track_frame[OF ok] have p: "pendingCallbacks w' = pendingCallbacks w"
      and f: "\<forall>s. s \<noteq> sid \<longrightarrow> stores w' s = stores w s" by blast+
    from track_step[OF wfs ok] have s: "wf_store (stores w' sid)" by (rule conjunct1)
    show ?thesis by (rule wf_world_step[OF wf _ s f]) (simp only: p)
  next
    case (OpRemoveAutoSubscription sid a)
    with e have ok: "removeAutoSubscription sid a w = Ok w'" by simp
    from remove_frame[OF ok] obtain cb
      where p: "pendingCallbacks w' = AList.delete cb (pendingCallbacks w)"
      and f: "\<forall>s. s \<noteq> sid \<longrightarrow> stores w' s = stores w s" by blast
    from remove_step[OF wfs ok] have s: "wf_store (stores w' sid)" by (rule conjunct1)
    show ?thesis
      by (rule wf_world_step[OF wf _ s f]) (simp only: p AList.distinct_delete)
  next
    case (OpPushTriggerBlock c)
    with e wf show ?thesis by (auto simp: pushTriggerBlock_def wf_world_def set_static_frame)
  next
    case (OpPopTriggerBlock c)
    let ?w1 = "set_triggerBlockCount c (get_triggerBlockCount c w - 1) w"
    from e OpPopTriggerBlock have "R ?w1 = Ok w' \<or> w' = ?w1"
      by (auto simp: popTriggerBlock_def Let_def split: if_splits)
    moreover have "wf_world ?w1" using wf by (simp add: wf_world_def set_static_frame)
    ultimately show ?thesis using preservesD[OF R] by auto
  next
    case (OpSetThrottleStatus c b)
    with e have "R (set_bypassThrottle c (\<not> b) w) = Ok w'" by (simp add: setThrottleStatus_def)
    moreover have "wf_world (set_bypassThrottle c (\<not> b) w)"
      using wf by (simp add: wf_world_def set_static_frame)
    ultimately show ?thesis using preservesD[OF R] by auto
  qed
qed

lemma wf_world_resolveCallbacks: "preserves wf_world (resolveCallbacks beh n)"
proof (rule preserves_resolveCallbacks)
  show "preserves wf_world (exec_op R x)" if "preserves wf_world R" for R x
    using that by (rule wf_world_exec_op)
  show "wf_world (snd (begin_pass w))" if "wf_world w" for w
    using that by (simp add: begin_pass_eq wf_world_def distinct_map_filter)
qed (simp_all add: wf_world_def end_pass_def)

text \<open>Every state reached from a new world by calls of the interface, those of the
  callbacks included, and by timers firing, has a table without duplicate callbacks and
  dictionaries without empty lists.\<close>

lemma wf_world_exec_ops:
  assumes "wf_world w" and "exec_ops (resolveCallbacks beh n) xs w = Ok w'"
  shows "wf_world w'"
proof -
  have "preserves wf_world (exec_ops (resolveCallbacks beh n) xs)"
  proof (rule preserves_exec_ops)
    show "preserves wf_world (exec_op (resolveCallbacks beh n) x)" for x
      by (rule wf_world_exec_op[OF wf_world_resolveCallbacks])
    show "wf_world (v\<lparr>calls := calls v @ [c]\<rparr>)" if "wf_world v" for v c
      using that by (simp add: wf_world_def)
  qed
  from preservesD[OF this assms] show ?thesis .
qed

lemma wf_world_handleThrottledCallbacks:
  assumes "wf_world w" and "handleThrottledCallbacks (resolveCallbacks beh n) sid w = Ok w'"
  shows "wf_world w'"
proof -
  have "wf_world (update_store sid (\<lambda>s. s\<lparr>throttleData := None\<rparr>) w)"
    using assms(1) by (simp add: wf_world_def update_store_def wf_store_def)
  then show ?thesis
    using assms(2) preservesD[OF wf_world_resolveCallbacks]
    by (simp add: handleThrottledCallbacks_def)
qed


end
